theory Spec2Isabelle
  imports Main "HOL-Library.Word"
begin

unbundle bit_operations_syntax

section \<open>Machine types and configuration constants (Config.h)\<close>

type_synonym u8 = "8 word"
type_synonym u32 = "32 word"

definition RELAY_COUNT :: u8 where
  "RELAY_COUNT = 5"

definition RELAY_GUEST_ROOM :: u8 where
  "RELAY_GUEST_ROOM = 2"

definition MAX_AUTOMATION_RULES :: u8 where
  "MAX_AUTOMATION_RULES = 5"

definition TEMP_HYSTERESIS :: u8 where
  "TEMP_HYSTERESIS = 2"

definition TEMP_THRESHOLD_HIGH :: u8 where
  "TEMP_THRESHOLD_HIGH = 28"

definition MAX_SCHEDULES :: u8 where
  "MAX_SCHEDULES = 6"

definition MAX_TIMERS :: u8 where
  "MAX_TIMERS = 5"

definition SCHEDULE_DAILY :: u8 where
  "SCHEDULE_DAILY = 0x7F"

definition FILE_SCHEDULES :: string where
  "FILE_SCHEDULES = ''data/schedules.dat''"

definition FILE_AUTOMATION :: string where
  "FILE_AUTOMATION = ''data/automation.dat''"

section \<open>The environment of the engines\<close>

text \<open>
  The actuation callback is a C function pointer \<^verbatim>\<open>void (*)(uint8_t, bool)\<close> and may be
  null. What it does is outside the engines; it may write the relay-state array that the
  engines read through \<^verbatim>\<open>bool* relayStates\<close>. A non-null callback is therefore a
  transformer of that array, and the null pointer is \<open>None\<close>. The array is indexed by
  relay id and the engines read it only at ids below \<open>RELAY_COUNT\<close>. Every invocation
  is also appended to a log, so that invocations can be counted.
\<close>

type_synonym RelayCallback = "(u8 \<Rightarrow> bool \<Rightarrow> (u8 \<Rightarrow> bool) \<Rightarrow> (u8 \<Rightarrow> bool)) option"

record Env =
  relayStates :: "u8 \<Rightarrow> bool"
  calls :: "(u8 \<times> bool) list"

definition invoke :: "(u8 \<Rightarrow> bool \<Rightarrow> (u8 \<Rightarrow> bool) \<Rightarrow> (u8 \<Rightarrow> bool)) \<Rightarrow> u8 \<Rightarrow> bool \<Rightarrow> Env \<Rightarrow> Env" where
  "invoke f rid st env =
     env\<lparr>relayStates := f rid st (relayStates env), calls := calls env @ [(rid, st)]\<rparr>"

section \<open>Automation rules (AutomationController.h)\<close>

text \<open>
  \<^verbatim>\<open>enum class TriggerType : uint8_t\<close> and \<^verbatim>\<open>enum class ActionType : uint8_t\<close> are bytes
  in the rule record; a record read back from storage can hold any byte there, and the
  \<^verbatim>\<open>switch\<close> statements have a \<^verbatim>\<open>default\<close> branch for it. They are modelled as bytes
  with named values.
\<close>

type_synonym TriggerType = u8
type_synonym ActionType = u8

definition TEMP_HIGH :: TriggerType where "TEMP_HIGH = 0"
definition TEMP_LOW :: TriggerType where "TEMP_LOW = 1"
definition TEMP_RANGE :: TriggerType where "TEMP_RANGE = 2"
definition MANUAL_ONLY :: TriggerType where "MANUAL_ONLY = 3"
definition MOTION_DETECTED :: TriggerType where "MOTION_DETECTED = 4"
definition LIGHT_LOW :: TriggerType where "LIGHT_LOW = 5"

definition TURN_ON :: ActionType where "TURN_ON = 0"
definition TURN_OFF :: ActionType where "TURN_OFF = 1"
definition TOGGLE :: ActionType where "TOGGLE = 2"

record AutomationRule =
  relayId :: u8
  triggerType :: TriggerType
  action :: ActionType
  threshold :: u8
  thresholdHigh :: u8
  enabled :: bool
  currentlyTriggered :: bool
  hysteresis :: u8
  lastTriggerTime :: u32

record AutomationController =
  rules :: "AutomationRule list"
  ruleCount :: u8
  automationEnabled :: bool
  lastTemperature :: u8

text \<open>
  The array \<^verbatim>\<open>rules[MAX_AUTOMATION_RULES]\<close> is a list of that fixed length; the logical
  length is \<open>ruleCount\<close>.
\<close>

definition wf_automation :: "AutomationController \<Rightarrow> bool" where
  "wf_automation c \<longleftrightarrow>
     length (rules c) = unat MAX_AUTOMATION_RULES \<and> ruleCount c \<le> MAX_AUTOMATION_RULES"

subsection \<open>Rule evaluation (AutomationController.cpp)\<close>

text \<open>
  The operands of \<^verbatim>\<open>rule.threshold - rule.hysteresis\<close> and of
  \<^verbatim>\<open>rule.threshold + rule.hysteresis\<close> are \<^verbatim>\<open>uint8_t\<close>; C++ promotes them to
  \<^verbatim>\<open>int\<close>, so the difference can be negative and the sum can exceed 255, and the
  comparison is one of integers.
\<close>

definition evaluateCondition :: "AutomationRule \<Rightarrow> u8 \<Rightarrow> bool" where
  "evaluateCondition rule currentTemp =
     (if triggerType rule = TEMP_HIGH then
        (if currentlyTriggered rule
         then uint currentTemp \<ge> uint (threshold rule) - uint (hysteresis rule)
         else currentTemp \<ge> threshold rule)
      else if triggerType rule = TEMP_LOW then
        (if currentlyTriggered rule
         then uint currentTemp \<le> uint (threshold rule) + uint (hysteresis rule)
         else currentTemp \<le> threshold rule)
      else if triggerType rule = TEMP_RANGE then
        currentTemp \<ge> threshold rule \<and> currentTemp \<le> thresholdHigh rule
      else False)"

definition executeAction :: "AutomationRule \<Rightarrow> RelayCallback \<Rightarrow> Env \<Rightarrow> Env" where
  "executeAction rule relayCallback env =
     (case relayCallback of
        None \<Rightarrow> env
      | Some f \<Rightarrow>
          if relayId rule \<ge> RELAY_COUNT then env
          else if action rule = TURN_ON then invoke f (relayId rule) True env
          else if action rule = TURN_OFF then invoke f (relayId rule) False env
          else if action rule = TOGGLE
            then invoke f (relayId rule) (\<not> relayStates env (relayId rule)) env
          else env)"

text \<open>
  The body of the loop of \<^verbatim>\<open>evaluate\<close> for one rule \<^verbatim>\<open>rules[i]\<close>; \<open>now\<close> is what
  \<^verbatim>\<open>millis()\<close> returns in this iteration.
\<close>

definition evaluate_rule :: "u32 \<Rightarrow> u8 \<Rightarrow> RelayCallback \<Rightarrow> AutomationRule \<Rightarrow> Env \<Rightarrow> AutomationRule \<times> Env" where
  "evaluate_rule now currentTemp relayCallback rule env =
     (if \<not> enabled rule then (rule, env)
      else
        let conditionMet = evaluateCondition rule currentTemp in
        if conditionMet \<and> \<not> currentlyTriggered rule then
          (rule\<lparr>currentlyTriggered := True, lastTriggerTime := now\<rparr>,
           executeAction rule relayCallback env)
        else if \<not> conditionMet \<and> currentlyTriggered rule then
          (rule\<lparr>currentlyTriggered := False\<rparr>, env)
        else (rule, env))"

definition evaluate_step :: "(nat \<Rightarrow> u32) \<Rightarrow> u8 \<Rightarrow> RelayCallback \<Rightarrow> AutomationController \<times> Env \<Rightarrow> nat \<Rightarrow> AutomationController \<times> Env" where
  "evaluate_step millis currentTemp relayCallback s i =
     (let (rule', env') = evaluate_rule (millis i) currentTemp relayCallback (rules (fst s) ! i) (snd s)
      in ((fst s)\<lparr>rules := (rules (fst s))[i := rule']\<rparr>, env'))"

text \<open>
  The loop \<^verbatim>\<open>for (uint8_t i = 0; i < ruleCount; i++)\<close> after its first \<open>k\<close> iterations.
  The body never writes \<open>ruleCount\<close>, and \<open>i\<close> stays below 255, so the counter is a
  natural number. \<open>millis i\<close> is the clock reading in iteration \<open>i\<close>.
\<close>

definition evaluate_loop :: "(nat \<Rightarrow> u32) \<Rightarrow> u8 \<Rightarrow> RelayCallback \<Rightarrow> AutomationController \<times> Env \<Rightarrow> nat \<Rightarrow> AutomationController \<times> Env" where
  "evaluate_loop millis currentTemp relayCallback s k =
     foldl (evaluate_step millis currentTemp relayCallback) s [0..<k]"

definition evaluate :: "(nat \<Rightarrow> u32) \<Rightarrow> u8 \<Rightarrow> RelayCallback \<Rightarrow> AutomationController \<Rightarrow> Env \<Rightarrow> AutomationController \<times> Env" where
  "evaluate millis currentTemp relayCallback c env =
     (if \<not> automationEnabled c then (c, env)
      else evaluate_loop millis currentTemp relayCallback
             (c\<lparr>lastTemperature := currentTemp\<rparr>, env) (unat (ruleCount c)))"

text \<open>
  A callback invocation happens in the iteration for \<open>rule\<close> exactly in this case: the
  rule is enabled, its condition has just become true, and \<^verbatim>\<open>executeAction\<close> gets past
  its guards (non-null callback, relay id in range, a known action).
\<close>

definition actuates :: "u8 \<Rightarrow> RelayCallback \<Rightarrow> AutomationRule \<Rightarrow> bool" where
  "actuates currentTemp relayCallback rule \<longleftrightarrow>
     enabled rule \<and> evaluateCondition rule currentTemp \<and> \<not> currentlyTriggered rule \<and>
     relayCallback \<noteq> None \<and> relayId rule < RELAY_COUNT \<and>
     (action rule = TURN_ON \<or> action rule = TURN_OFF \<or> action rule = TOGGLE)"

subsection \<open>Rule management\<close>

text \<open>
  The constructor leaves the other fields of the array elements as they are in memory;
  \<open>mem\<close> is that content.
\<close>

definition AutomationController_init :: "AutomationRule list \<Rightarrow> AutomationController" where
  "AutomationController_init mem =
     \<lparr>rules = map (\<lambda>r. r\<lparr>enabled := False, currentlyTriggered := False\<rparr>) mem,
      ruleCount = 0, automationEnabled = True, lastTemperature = 0\<rparr>"

definition addRule :: "u8 \<Rightarrow> TriggerType \<Rightarrow> ActionType \<Rightarrow> u8 \<Rightarrow> AutomationController \<Rightarrow> bool \<times> AutomationController" where
  "addRule rid trig act thr c =
     (if ruleCount c \<ge> MAX_AUTOMATION_RULES then (False, c)
      else if rid \<ge> RELAY_COUNT then (False, c)
      else
        let n = unat (ruleCount c);
            rule = (rules c ! n)\<lparr>relayId := rid, triggerType := trig, action := act,
                     threshold := thr, thresholdHigh := thr + 10, enabled := True,
                     currentlyTriggered := False, hysteresis := TEMP_HYSTERESIS,
                     lastTriggerTime := 0\<rparr>
        in (True, c\<lparr>rules := (rules c)[n := rule], ruleCount := ruleCount c + 1\<rparr>))"

text \<open>
  \<^verbatim>\<open>for (uint8_t i = index; i < ruleCount - 1; i++) rules[i] = rules[i + 1];\<close>
  for any element type (the schedules are shifted by the same loop).
\<close>

definition shift_down :: "'a list \<Rightarrow> nat \<Rightarrow> nat \<Rightarrow> 'a list" where
  "shift_down xs index n = foldl (\<lambda>ys i. ys[i := ys ! (i + 1)]) xs [index..<n - 1]"

definition removeRule :: "u8 \<Rightarrow> AutomationController \<Rightarrow> bool \<times> AutomationController" where
  "removeRule index c =
     (if index \<ge> ruleCount c then (False, c)
      else (True, c\<lparr>rules := shift_down (rules c) (unat index) (unat (ruleCount c)),
                     ruleCount := ruleCount c - 1\<rparr>))"

definition setRuleEnabled :: "u8 \<Rightarrow> bool \<Rightarrow> AutomationController \<Rightarrow> AutomationController" where
  "setRuleEnabled index en c =
     (if index < ruleCount c
      then c\<lparr>rules := (rules c)[unat index := (rules c ! unat index)\<lparr>enabled := en\<rparr>]\<rparr>
      else c)"

definition setAutomationEnabled :: "bool \<Rightarrow> AutomationController \<Rightarrow> AutomationController" where
  "setAutomationEnabled en c = c\<lparr>automationEnabled := en\<rparr>"

text \<open>The null pointer is \<open>None\<close>.\<close>

definition getRule :: "u8 \<Rightarrow> AutomationController \<Rightarrow> AutomationRule option" where
  "getRule index c = (if index \<ge> ruleCount c then None else Some (rules c ! unat index))"

definition clearAllRules :: "AutomationController \<Rightarrow> AutomationController" where
  "clearAllRules c = c\<lparr>ruleCount := 0, rules := map (\<lambda>r. r\<lparr>enabled := False\<rparr>) (rules c)\<rparr>"

section \<open>The persistent store\<close>

text \<open>
  Modelled from the spec: the persistent store is the Arduino SD library, which is not part
  of the repository. The spec describes it as a byte-oriented file abstraction with an
  existence check, remove, directory-create, open-for-write (truncating), open-for-read,
  byte and record reads and writes, and close. A store is the files by path, the
  directories, and whether an open yields a usable file.
\<close>

record SDCard =
  sd_files :: "string \<Rightarrow> u8 list option"
  sd_dirs :: "string list"
  sd_open_ok :: bool

definition SD_exists :: "SDCard \<Rightarrow> string \<Rightarrow> bool" where
  "SD_exists sd path \<longleftrightarrow> sd_files sd path \<noteq> None \<or> path \<in> set (sd_dirs sd)"

definition SD_remove :: "SDCard \<Rightarrow> string \<Rightarrow> SDCard" where
  "SD_remove sd path = sd\<lparr>sd_files := (sd_files sd)(path := None)\<rparr>"

definition SD_mkdir :: "SDCard \<Rightarrow> string \<Rightarrow> SDCard" where
  "SD_mkdir sd path = sd\<lparr>sd_dirs := path # sd_dirs sd\<rparr>"

text \<open>An open file for reading is the bytes that are still to be read.\<close>

definition SD_open_read :: "SDCard \<Rightarrow> string \<Rightarrow> u8 list option" where
  "SD_open_read sd path = (if sd_open_ok sd then sd_files sd path else None)"

text \<open>\<^verbatim>\<open>int File::read()\<close>: the next byte, or -1 at the end of the file.\<close>

fun file_read :: "u8 list \<Rightarrow> int \<times> u8 list" where
  "file_read [] = (-1, [])"
| "file_read (b # bs) = (uint b, bs)"

text \<open>
  \<^verbatim>\<open>File::read(buf, n)\<close> copies the next \<open>n\<close> bytes, or as many as are left, over the
  start of the buffer, whose old content is \<open>old\<close>; it returns the buffer and the rest of
  the file.
\<close>

definition file_read_buf :: "u8 list \<Rightarrow> u8 list \<Rightarrow> u8 list \<times> u8 list" where
  "file_read_buf old bytes =
     (let got = take (length old) bytes
      in (got @ drop (length got) old, drop (length old) bytes))"

subsection \<open>Record images in memory\<close>

text \<open>
  \<^verbatim>\<open>file.write((uint8_t*)&rules[i], sizeof(AutomationRule))\<close> writes the bytes of the
  record as they lie in memory. On the AVR target every field is byte-aligned, a
  \<^verbatim>\<open>bool\<close> is one byte holding 0 or 1, and \<^verbatim>\<open>unsigned long\<close> is four bytes, lowest
  first: twelve bytes for a rule and eight for a schedule. A byte other than 0 read
  back into a \<^verbatim>\<open>bool\<close> is taken as true.
\<close>

definition bool_byte :: "bool \<Rightarrow> u8" where
  "bool_byte b = (if b then 1 else 0)"

definition le32 :: "u32 \<Rightarrow> u8 list" where
  "le32 w = [ucast w, ucast (drop_bit 8 w), ucast (drop_bit 16 w), ucast (drop_bit 24 w)]"

definition of_le32 :: "u8 \<Rightarrow> u8 \<Rightarrow> u8 \<Rightarrow> u8 \<Rightarrow> u32" where
  "of_le32 b0 b1 b2 b3 =
     ucast b0 OR push_bit 8 (ucast b1) OR push_bit 16 (ucast b2) OR push_bit 24 (ucast b3)"

definition rule_bytes :: "AutomationRule \<Rightarrow> u8 list" where
  "rule_bytes r =
     [relayId r, triggerType r, action r, threshold r, thresholdHigh r,
      bool_byte (enabled r), bool_byte (currentlyTriggered r), hysteresis r]
     @ le32 (lastTriggerTime r)"

definition rule_of_bytes :: "u8 list \<Rightarrow> AutomationRule" where
  "rule_of_bytes bs =
     \<lparr>relayId = bs ! 0, triggerType = bs ! 1, action = bs ! 2, threshold = bs ! 3,
      thresholdHigh = bs ! 4, enabled = (bs ! 5 \<noteq> 0), currentlyTriggered = (bs ! 6 \<noteq> 0),
      hysteresis = bs ! 7, lastTriggerTime = of_le32 (bs ! 8) (bs ! 9) (bs ! 10) (bs ! 11)\<rparr>"

subsection \<open>Persistence of the rules\<close>

definition automation_saveToSD :: "AutomationController \<Rightarrow> SDCard \<Rightarrow> bool \<times> SDCard" where
  "automation_saveToSD c sd =
     (let sd1 = (if SD_exists sd FILE_AUTOMATION then SD_remove sd FILE_AUTOMATION else sd);
          sd2 = (if \<not> SD_exists sd1 ''data'' then SD_mkdir sd1 ''data'' else sd1)
      in if \<not> sd_open_ok sd2 then (False, sd2)
         else
           let written = foldl (\<lambda>bytes i. bytes @ rule_bytes (rules c ! i))
                               [ruleCount c] [0..<unat (ruleCount c)]
           in (True, sd2\<lparr>sd_files := (sd_files sd2)(FILE_AUTOMATION := Some written)\<rparr>))"

definition load_rule_step :: "AutomationController \<times> u8 list \<Rightarrow> nat \<Rightarrow> AutomationController \<times> u8 list" where
  "load_rule_step s i =
     (let (buf, rest) = file_read_buf (rule_bytes (rules (fst s) ! i)) (snd s)
      in ((fst s)\<lparr>rules := (rules (fst s))[i := rule_of_bytes buf]\<rparr>, rest))"

definition automation_loadFromSD :: "AutomationController \<Rightarrow> SDCard \<Rightarrow> bool \<times> AutomationController" where
  "automation_loadFromSD c sd =
     (if \<not> SD_exists sd FILE_AUTOMATION then (False, c)
      else case SD_open_read sd FILE_AUTOMATION of
        None \<Rightarrow> (False, c)
      | Some bytes \<Rightarrow>
          let (b, rest) = file_read bytes;
              c1 = c\<lparr>ruleCount := word_of_int b\<rparr>
          in if ruleCount c1 > MAX_AUTOMATION_RULES then (False, c1\<lparr>ruleCount := 0\<rparr>)
             else (True, fst (foldl load_rule_step (c1, rest) [0..<unat (ruleCount c1)])))"

text \<open>\<^verbatim>\<open>begin\<close>: the default rules are added when nothing could be loaded.\<close>

definition automation_begin :: "AutomationController \<Rightarrow> SDCard \<Rightarrow> AutomationController" where
  "automation_begin c sd =
     (let (ok, c1) = automation_loadFromSD c sd
      in if \<not> ok then
           let c2 = snd (addRule RELAY_GUEST_ROOM TEMP_HIGH TURN_ON TEMP_THRESHOLD_HIGH c1)
           in snd (addRule RELAY_GUEST_ROOM TEMP_LOW TURN_OFF
                     (TEMP_THRESHOLD_HIGH - TEMP_HYSTERESIS) c2)
         else c1)"

section \<open>Schedules and timers (ScheduleController.h)\<close>

record Schedule =
  sched_relayId :: u8
  onHour :: u8
  onMinute :: u8
  offHour :: u8
  offMinute :: u8
  daysOfWeek :: u8
  sched_enabled :: bool
  isActive :: bool

record Timer =
  timer_relayId :: u8
  startTime :: u32
  duration :: u32
  turnOffWhenExpired :: bool
  timer_enabled :: bool

record ScheduleController =
  schedules :: "Schedule list"
  timers :: "Timer list"
  scheduleCount :: u8
  timerCount :: u8
  rtcAvailable :: bool
  lastMinute :: u8

text \<open>
  The arrays \<^verbatim>\<open>schedules[MAX_SCHEDULES]\<close> and \<^verbatim>\<open>timers[MAX_TIMERS]\<close> are lists of
  those lengths, with their logical lengths within the capacity.
\<close>

definition wf_schedule :: "ScheduleController \<Rightarrow> bool" where
  "wf_schedule c \<longleftrightarrow>
     length (schedules c) = unat MAX_SCHEDULES \<and> scheduleCount c \<le> MAX_SCHEDULES"

definition wf_timers :: "ScheduleController \<Rightarrow> bool" where
  "wf_timers c \<longleftrightarrow>
     length (timers c) = unat MAX_TIMERS \<and> timerCount c \<le> MAX_TIMERS"

definition ScheduleController_init :: "Schedule list \<Rightarrow> Timer list \<Rightarrow> ScheduleController" where
  "ScheduleController_init smem tmem =
     \<lparr>schedules = map (\<lambda>s. s\<lparr>sched_enabled := False, isActive := False\<rparr>) smem,
      timers = map (\<lambda>t. t\<lparr>timer_enabled := False\<rparr>) tmem,
      scheduleCount = 0, timerCount = 0, rtcAvailable = False, lastMinute = 0\<rparr>"

subsection \<open>Schedule logic (ScheduleController.cpp)\<close>

text \<open>
  \<^verbatim>\<open>uint8_t dayBit = 1 << (dayOfWeek - 1)\<close>: the shift is done on \<^verbatim>\<open>int\<close> and the
  result cut to eight bits. For \<open>dayOfWeek = 0\<close> the shift count is -1, which C++ leaves
  undefined; the compiled code yields no day bit there, so no day matches, and the
  model says so in a branch of its own. The callers pass 1 to 7.
\<close>

definition isDayMatch :: "Schedule \<Rightarrow> u8 \<Rightarrow> bool" where
  "isDayMatch sched dayOfWeek =
     (if dayOfWeek = 0 then False
      else
        let dayBit = (push_bit (unat dayOfWeek - 1) 1 :: u8)
        in (daysOfWeek sched AND dayBit) \<noteq> 0)"

text \<open>
  \<^verbatim>\<open>uint16_t currentMinutes = currentHour * 60 + currentMin\<close>: the arithmetic is on
  \<^verbatim>\<open>int\<close>, the result is stored in sixteen bits.
\<close>

definition minutes16 :: "u8 \<Rightarrow> u8 \<Rightarrow> nat" where
  "minutes16 h m = (unat h * 60 + unat m) mod 2 ^ 16"

definition shouldScheduleBeActive :: "Schedule \<Rightarrow> u8 \<Rightarrow> u8 \<Rightarrow> u8 \<Rightarrow> bool" where
  "shouldScheduleBeActive sched currentHour currentMin dayOfWeek =
     (if \<not> isDayMatch sched dayOfWeek then False
      else
        let currentMinutes = minutes16 currentHour currentMin;
            onMinutes = minutes16 (onHour sched) (onMinute sched);
            offMinutes = minutes16 (offHour sched) (offMinute sched)
        in if offMinutes < onMinutes
           then currentMinutes \<ge> onMinutes \<or> currentMinutes < offMinutes
           else currentMinutes \<ge> onMinutes \<and> currentMinutes < offMinutes)"

subsection \<open>Timers\<close>

text \<open>
  \<^verbatim>\<open>findTimerIndex\<close>: the loop from index \<open>i\<close> on, with \<open>n\<close> the timer count. The index
  found is returned as \<^verbatim>\<open>int8_t\<close>.
\<close>

function findTimerIndex_from :: "Timer list \<Rightarrow> u8 \<Rightarrow> nat \<Rightarrow> nat \<Rightarrow> int" where
  "findTimerIndex_from ts rid n i =
     (if i < n then
        (if timer_relayId (ts ! i) = rid \<and> timer_enabled (ts ! i)
         then sint (word_of_nat i :: 8 word)
         else findTimerIndex_from ts rid n (Suc i))
      else -1)"
  by pat_completeness auto
termination
  by (relation "measure (\<lambda>(ts, rid, n, i). n - i)") auto

declare findTimerIndex_from.simps [simp del]

text \<open>The test of the loop: the slot belongs to the relay and is enabled.\<close>

definition timer_match :: "u8 \<Rightarrow> Timer \<Rightarrow> bool" where
  "timer_match rid t \<longleftrightarrow> timer_relayId t = rid \<and> timer_enabled t"

text \<open>A timer record with all its fields given.\<close>

definition timer_slot :: "u8 \<Rightarrow> u32 \<Rightarrow> u32 \<Rightarrow> bool \<Rightarrow> bool \<Rightarrow> Timer" where
  "timer_slot rid start dur turnOff en =
     \<lparr>timer_relayId = rid, startTime = start, duration = dur, turnOffWhenExpired = turnOff,
      timer_enabled = en\<rparr>"

definition findTimerIndex :: "u8 \<Rightarrow> ScheduleController \<Rightarrow> int" where
  "findTimerIndex rid c = findTimerIndex_from (timers c) rid (unat (timerCount c)) 0"

definition cancelTimer :: "u8 \<Rightarrow> ScheduleController \<Rightarrow> bool \<times> ScheduleController" where
  "cancelTimer rid c =
     (let index = findTimerIndex rid c
      in if index \<ge> 0
         then (True, c\<lparr>timers := (timers c)[nat index := (timers c ! nat index)\<lparr>timer_enabled := False\<rparr>]\<rparr>)
         else (False, c))"

text \<open>\<open>now\<close> is what \<^verbatim>\<open>millis()\<close> returns.\<close>

definition addTimer :: "u32 \<Rightarrow> u8 \<Rightarrow> u32 \<Rightarrow> bool \<Rightarrow> ScheduleController \<Rightarrow> bool \<times> ScheduleController" where
  "addTimer now rid durationSeconds turnOff c =
     (if timerCount c \<ge> MAX_TIMERS then (False, c)
      else if rid \<ge> RELAY_COUNT then (False, c)
      else
        let c1 = snd (cancelTimer rid c);
            n = unat (timerCount c1);
            timer = (timers c1 ! n)\<lparr>timer_relayId := rid, startTime := now,
                      duration := durationSeconds, turnOffWhenExpired := turnOff,
                      timer_enabled := True\<rparr>
        in (True, c1\<lparr>timers := (timers c1)[n := timer], timerCount := timerCount c1 + 1\<rparr>))"

definition getTimerRemaining :: "u32 \<Rightarrow> u8 \<Rightarrow> ScheduleController \<Rightarrow> u32" where
  "getTimerRemaining now rid c =
     (let index = findTimerIndex rid c
      in if index < 0 then 0
         else
           let timer = timers c ! nat index;
               elapsed = now - startTime timer;
               elapsedSeconds = elapsed div 1000
           in if elapsedSeconds \<ge> duration timer then 0
              else duration timer - elapsedSeconds)"

definition getTimer :: "u8 \<Rightarrow> ScheduleController \<Rightarrow> Timer option" where
  "getTimer rid c =
     (let index = findTimerIndex rid c
      in if index < 0 then None else Some (timers c ! nat index))"

definition clearAllTimers :: "ScheduleController \<Rightarrow> ScheduleController" where
  "clearAllTimers c = c\<lparr>timerCount := 0\<rparr>"

text \<open>
  The first loop of \<^verbatim>\<open>updateTimers\<close>, one iteration: the elapsed time is a difference of
  32-bit unsigned values, which wraps.
\<close>

definition timer_expired :: "u32 \<Rightarrow> Timer \<Rightarrow> bool" where
  "timer_expired currentTime timer \<longleftrightarrow>
     (let elapsed = currentTime - startTime timer;
          elapsedSeconds = elapsed div 1000
      in elapsedSeconds \<ge> duration timer)"

definition expire_step :: "u32 \<Rightarrow> RelayCallback \<Rightarrow> Timer list \<times> Env \<Rightarrow> nat \<Rightarrow> Timer list \<times> Env" where
  "expire_step currentTime relayCallback s i =
     (let timer = fst s ! i in
      if \<not> timer_enabled timer then s
      else if timer_expired currentTime timer then
        ((fst s)[i := timer\<lparr>timer_enabled := False\<rparr>],
         (case relayCallback of
            None \<Rightarrow> snd s
          | Some f \<Rightarrow> invoke f (timer_relayId timer) (\<not> turnOffWhenExpired timer) (snd s)))
      else s)"

text \<open>The second loop, one iteration: the state is the array and \<open>writeIndex\<close>.\<close>

definition compact_step :: "Timer list \<times> nat \<Rightarrow> nat \<Rightarrow> Timer list \<times> nat" where
  "compact_step s readIndex =
     (let ts = fst s; writeIndex = snd s in
      if timer_enabled (ts ! readIndex)
      then ((if writeIndex \<noteq> readIndex then ts[writeIndex := ts ! readIndex] else ts),
            writeIndex + 1)
      else s)"

definition updateTimers :: "u32 \<Rightarrow> RelayCallback \<Rightarrow> ScheduleController \<Rightarrow> Env \<Rightarrow> ScheduleController \<times> Env" where
  "updateTimers currentTime relayCallback c env =
     (let n = unat (timerCount c);
          (ts1, env1) = foldl (expire_step currentTime relayCallback) (timers c, env) [0..<n];
          (ts2, writeIndex) = foldl compact_step (ts1, 0) [0..<n]
      in (c\<lparr>timers := ts2, timerCount := word_of_nat writeIndex\<rparr>, env1))"

text \<open>
  The timers that count are the first \<open>timerCount\<close> slots of the array. A timer fires
  in a sweep at \<open>currentTime\<close> when it is enabled and expired then.
\<close>

definition timer_fires :: "u32 \<Rightarrow> Timer \<Rightarrow> bool" where
  "timer_fires currentTime timer \<longleftrightarrow> timer_enabled timer \<and> timer_expired currentTime timer"

definition timer_call :: "Timer \<Rightarrow> u8 \<times> bool" where
  "timer_call timer = (timer_relayId timer, \<not> turnOffWhenExpired timer)"


text \<open>
  What the first loop of a sweep does to one slot, and the calls it makes for a list of
  slots.
\<close>

definition expire_mark :: "u32 \<Rightarrow> Timer \<Rightarrow> Timer" where
  "expire_mark now t = (if timer_fires now t then t\<lparr>timer_enabled := False\<rparr> else t)"

definition expire_calls :: "u32 \<Rightarrow> RelayCallback \<Rightarrow> Timer list \<Rightarrow> (u8 \<times> bool) list" where
  "expire_calls now cb ts =
     (case cb of None \<Rightarrow> [] | Some f \<Rightarrow> map timer_call (filter (timer_fires now) ts))"

definition active_timers :: "ScheduleController \<Rightarrow> Timer list" where
  "active_timers c = take (unat (timerCount c)) (timers c)"

definition one_timer_per_relay :: "ScheduleController \<Rightarrow> bool" where
  "one_timer_per_relay c \<longleftrightarrow>
     distinct (map timer_relayId (filter timer_enabled (active_timers c)))"

subsection \<open>Schedule management\<close>

definition addSchedule :: "u8 \<Rightarrow> u8 \<Rightarrow> u8 \<Rightarrow> u8 \<Rightarrow> u8 \<Rightarrow> u8 \<Rightarrow> ScheduleController \<Rightarrow> bool \<times> ScheduleController" where
  "addSchedule rid onH onM offH offM days c =
     (if scheduleCount c \<ge> MAX_SCHEDULES then (False, c)
      else if rid \<ge> RELAY_COUNT \<or> onH > 23 \<or> offH > 23 \<or> onM > 59 \<or> offM > 59 then (False, c)
      else
        let n = unat (scheduleCount c);
            sched = (schedules c ! n)\<lparr>sched_relayId := rid, onHour := onH, onMinute := onM,
                      offHour := offH, offMinute := offM, daysOfWeek := days,
                      sched_enabled := True, isActive := False\<rparr>
        in (True, c\<lparr>schedules := (schedules c)[n := sched], scheduleCount := scheduleCount c + 1\<rparr>))"

definition removeSchedule :: "u8 \<Rightarrow> ScheduleController \<Rightarrow> bool \<times> ScheduleController" where
  "removeSchedule index c =
     (if index \<ge> scheduleCount c then (False, c)
      else (True, c\<lparr>schedules := shift_down (schedules c) (unat index) (unat (scheduleCount c)),
                     scheduleCount := scheduleCount c - 1\<rparr>))"

definition setScheduleEnabled :: "u8 \<Rightarrow> bool \<Rightarrow> ScheduleController \<Rightarrow> ScheduleController" where
  "setScheduleEnabled index en c =
     (if index < scheduleCount c
      then c\<lparr>schedules := (schedules c)[unat index := (schedules c ! unat index)\<lparr>sched_enabled := en\<rparr>]\<rparr>
      else c)"

definition getSchedule :: "u8 \<Rightarrow> ScheduleController \<Rightarrow> Schedule option" where
  "getSchedule index c =
     (if index \<ge> scheduleCount c then None else Some (schedules c ! unat index))"

definition clearAllSchedules :: "ScheduleController \<Rightarrow> ScheduleController" where
  "clearAllSchedules c = c\<lparr>scheduleCount := 0\<rparr>"

subsection \<open>The update loop\<close>

text \<open>
  \<^verbatim>\<open>getCurrentTime\<close> returns false on both of its paths (the code that reads the clock
  is commented out), so it never yields a time (hour, minute, second, day of week).
\<close>

definition getCurrentTime :: "ScheduleController \<Rightarrow> (u8 \<times> u8 \<times> u8 \<times> u8) option" where
  "getCurrentTime c = (if \<not> rtcAvailable c then None else None)"

text \<open>\<^verbatim>\<open>setCurrentTime\<close> likewise returns false on both paths and changes nothing.\<close>

definition setCurrentTime :: "u8 \<Rightarrow> u8 \<Rightarrow> u8 \<Rightarrow> u8 \<Rightarrow> ScheduleController \<Rightarrow> bool" where
  "setCurrentTime hour minute second dayOfWeek c = (if \<not> rtcAvailable c then False else False)"

definition schedule_step :: "u8 \<Rightarrow> u8 \<Rightarrow> u8 \<Rightarrow> RelayCallback \<Rightarrow> ScheduleController \<times> Env \<Rightarrow> nat \<Rightarrow> ScheduleController \<times> Env" where
  "schedule_step currentHour currentMin dayOfWeek relayCallback s i =
     (let c = fst s; env = snd s; sched = schedules c ! i in
      if \<not> sched_enabled sched then s
      else
        let shouldBeActive = shouldScheduleBeActive sched currentHour currentMin dayOfWeek in
        if shouldBeActive \<and> \<not> isActive sched then
          (c\<lparr>schedules := (schedules c)[i := sched\<lparr>isActive := True\<rparr>]\<rparr>,
           (case relayCallback of None \<Rightarrow> env | Some f \<Rightarrow> invoke f (sched_relayId sched) True env))
        else if \<not> shouldBeActive \<and> isActive sched then
          (c\<lparr>schedules := (schedules c)[i := sched\<lparr>isActive := False\<rparr>]\<rparr>,
           (case relayCallback of None \<Rightarrow> env | Some f \<Rightarrow> invoke f (sched_relayId sched) False env))
        else s)"

definition update :: "u32 \<Rightarrow> RelayCallback \<Rightarrow> ScheduleController \<Rightarrow> Env \<Rightarrow> ScheduleController \<times> Env" where
  "update currentTime relayCallback c env =
     (let (c1, env1) = updateTimers currentTime relayCallback c env in
      if \<not> rtcAvailable c1 then (c1, env1)
      else case getCurrentTime c1 of
        None \<Rightarrow> (c1, env1)
      | Some (currentHour, currentMin, currentSec, dayOfWeek) \<Rightarrow>
          if currentMin = lastMinute c1 then (c1, env1)
          else foldl (schedule_step currentHour currentMin dayOfWeek relayCallback)
                 (c1\<lparr>lastMinute := currentMin\<rparr>, env1) [0..<unat (scheduleCount c1)])"

subsection \<open>Persistence of the schedules\<close>

definition schedule_bytes :: "Schedule \<Rightarrow> u8 list" where
  "schedule_bytes s =
     [sched_relayId s, onHour s, onMinute s, offHour s, offMinute s, daysOfWeek s,
      bool_byte (sched_enabled s), bool_byte (isActive s)]"

definition schedule_of_bytes :: "u8 list \<Rightarrow> Schedule" where
  "schedule_of_bytes bs =
     \<lparr>sched_relayId = bs ! 0, onHour = bs ! 1, onMinute = bs ! 2, offHour = bs ! 3,
      offMinute = bs ! 4, daysOfWeek = bs ! 5, sched_enabled = (bs ! 6 \<noteq> 0),
      isActive = (bs ! 7 \<noteq> 0)\<rparr>"

definition schedule_saveToSD :: "ScheduleController \<Rightarrow> SDCard \<Rightarrow> bool \<times> SDCard" where
  "schedule_saveToSD c sd =
     (let sd1 = (if SD_exists sd FILE_SCHEDULES then SD_remove sd FILE_SCHEDULES else sd);
          sd2 = (if \<not> SD_exists sd1 ''data'' then SD_mkdir sd1 ''data'' else sd1)
      in if \<not> sd_open_ok sd2 then (False, sd2)
         else
           let written = foldl (\<lambda>bytes i. bytes @ schedule_bytes (schedules c ! i))
                               [scheduleCount c] [0..<unat (scheduleCount c)]
           in (True, sd2\<lparr>sd_files := (sd_files sd2)(FILE_SCHEDULES := Some written)\<rparr>))"

definition load_schedule_step :: "ScheduleController \<times> u8 list \<Rightarrow> nat \<Rightarrow> ScheduleController \<times> u8 list" where
  "load_schedule_step s i =
     (let (buf, rest) = file_read_buf (schedule_bytes (schedules (fst s) ! i)) (snd s)
      in ((fst s)\<lparr>schedules := (schedules (fst s))[i := schedule_of_bytes buf]\<rparr>, rest))"

definition schedule_loadFromSD :: "ScheduleController \<Rightarrow> SDCard \<Rightarrow> bool \<times> ScheduleController" where
  "schedule_loadFromSD c sd =
     (if \<not> SD_exists sd FILE_SCHEDULES then (False, c)
      else case SD_open_read sd FILE_SCHEDULES of
        None \<Rightarrow> (False, c)
      | Some bytes \<Rightarrow>
          let (b, rest) = file_read bytes;
              c1 = c\<lparr>scheduleCount := word_of_int b\<rparr>
          in if scheduleCount c1 > MAX_SCHEDULES then (False, c1\<lparr>scheduleCount := 0\<rparr>)
             else (True, fst (foldl load_schedule_step (c1, rest) [0..<unat (scheduleCount c1)])))"

text \<open>\<^verbatim>\<open>begin\<close> sets \<open>rtcAvailable\<close> to false, loads the schedules and returns the flag.\<close>

definition schedule_begin :: "ScheduleController \<Rightarrow> SDCard \<Rightarrow> bool \<times> ScheduleController" where
  "schedule_begin c sd =
     (let c1 = c\<lparr>rtcAvailable := False\<rparr>;
          c2 = snd (schedule_loadFromSD c1 sd)
      in (rtcAvailable c2, c2))"

subsection \<open>The states the public operations can reach\<close>

inductive reachable :: "ScheduleController \<Rightarrow> bool" where
  r_init: "length smem = unat MAX_SCHEDULES \<Longrightarrow> length tmem = unat MAX_TIMERS
             \<Longrightarrow> reachable (ScheduleController_init smem tmem)"
| r_begin: "reachable c \<Longrightarrow> reachable (snd (schedule_begin c sd))"
| r_update: "reachable c \<Longrightarrow> reachable (fst (update now cb c env))"
| r_addSchedule: "reachable c \<Longrightarrow> reachable (snd (addSchedule rid onH onM offH offM days c))"
| r_removeSchedule: "reachable c \<Longrightarrow> reachable (snd (removeSchedule index c))"
| r_setScheduleEnabled: "reachable c \<Longrightarrow> reachable (setScheduleEnabled index en c)"
| r_clearAllSchedules: "reachable c \<Longrightarrow> reachable (clearAllSchedules c)"
| r_addTimer: "reachable c \<Longrightarrow> reachable (snd (addTimer now rid dur turnOff c))"
| r_cancelTimer: "reachable c \<Longrightarrow> reachable (snd (cancelTimer rid c))"
| r_clearAllTimers: "reachable c \<Longrightarrow> reachable (clearAllTimers c)"
| r_loadFromSD: "reachable c \<Longrightarrow> reachable (snd (schedule_loadFromSD c sd))"

subsection \<open>Concrete states used to instantiate the theorems\<close>

text \<open>Scenario A of the spec: relay 2, threshold-high, turn-on, threshold 28, hysteresis 2.\<close>

definition scenarioA_rule :: "bool \<Rightarrow> AutomationRule" where
  "scenarioA_rule triggered =
     \<lparr>relayId = 2, triggerType = TEMP_HIGH, action = TURN_ON, threshold = 28,
      thresholdHigh = 38, enabled = True, currentlyTriggered = triggered, hysteresis = 2,
      lastTriggerTime = 0\<rparr>"

text \<open>The same rule with a relay id outside the five relays, as a stored file can hold it.\<close>

definition relay7_rule :: "bool \<Rightarrow> AutomationRule" where
  "relay7_rule triggered = (scenarioA_rule triggered)\<lparr>relayId := 7\<rparr>"

definition scenarioA_controller :: "bool \<Rightarrow> AutomationController" where
  "scenarioA_controller triggered =
     \<lparr>rules = replicate 5 (scenarioA_rule triggered), ruleCount = 1,
      automationEnabled = True, lastTemperature = 0\<rparr>"

definition env0 :: Env where
  "env0 = \<lparr>relayStates = (\<lambda>_. False), calls = []\<rparr>"

text \<open>A callback that records the requested state in the relay-state array.\<close>

definition set_relay :: "u8 \<Rightarrow> bool \<Rightarrow> (u8 \<Rightarrow> bool) \<Rightarrow> (u8 \<Rightarrow> bool)" where
  "set_relay rid st states = states(rid := st)"

text \<open>A clock that reads 7 in every iteration.\<close>

definition millis7 :: "nat \<Rightarrow> u32" where
  "millis7 i = 7"

text \<open>Scenario B of the spec: on at 22:00, off at 06:00, every day.\<close>

definition scenarioB_schedule :: Schedule where
  "scenarioB_schedule =
     \<lparr>sched_relayId = 0, onHour = 22, onMinute = 0, offHour = 6, offMinute = 0,
      daysOfWeek = SCHEDULE_DAILY, sched_enabled = True, isActive = False\<rparr>"

text \<open>A rule engine and a schedule engine at full capacity.\<close>

definition numbered_rule :: "u8 \<Rightarrow> AutomationRule" where
  "numbered_rule k = (scenarioA_rule False)\<lparr>threshold := k\<rparr>"

definition full_automation :: AutomationController where
  "full_automation =
     \<lparr>rules = [numbered_rule 20, numbered_rule 21, numbered_rule 22, numbered_rule 23,
               numbered_rule 24],
      ruleCount = 5, automationEnabled = True, lastTemperature = 0\<rparr>"

definition numbered_schedule :: "u8 \<Rightarrow> Schedule" where
  "numbered_schedule k = scenarioB_schedule\<lparr>onHour := k\<rparr>"

definition full_schedules :: ScheduleController where
  "full_schedules =
     \<lparr>schedules = [numbered_schedule 1, numbered_schedule 2, numbered_schedule 3,
                   numbered_schedule 4, numbered_schedule 5, numbered_schedule 6],
      timers = replicate 5 (timer_slot 0 0 0 False False),
      scheduleCount = 6, timerCount = 0, rtcAvailable = False, lastMinute = 0\<rparr>"

text \<open>
  Five counted timer slots, the one of relay 1 cancelled; at 3000 ms the timers of
  relays 2 and 4 (3 s and 2 s) have expired.
\<close>

definition five_timers :: ScheduleController where
  "five_timers =
     \<lparr>schedules = replicate 6 scenarioB_schedule,
      timers = [timer_slot 0 0 100 True True, timer_slot 1 0 100 True False,
                timer_slot 2 0 3 True True, timer_slot 3 0 100 False True,
                timer_slot 4 0 2 False True],
      scheduleCount = 0, timerCount = 5, rtcAvailable = False, lastMinute = 0\<rparr>"

text \<open>Scenario C of the spec: three timers for relay 2 in a row, 5 s, 10 s and 3 s.\<close>

definition fresh_schedules :: ScheduleController where
  "fresh_schedules =
     ScheduleController_init (replicate 6 scenarioB_schedule)
       (replicate 5 (timer_slot 0 0 0 False True))"

definition scenarioC_two :: ScheduleController where
  "scenarioC_two = snd (addTimer 0 2 10 True (snd (addTimer 0 2 5 True fresh_schedules)))"

text \<open>A card with no files on it, and a fresh rule engine.\<close>

definition empty_sd :: SDCard where
  "empty_sd = \<lparr>sd_files = (\<lambda>path. None), sd_dirs = [], sd_open_ok = True\<rparr>"

definition fresh_automation :: AutomationController where
  "fresh_automation = AutomationController_init (replicate 5 (scenarioA_rule True))"

text \<open>
  A card on which every open fails, and a card whose files start with the count byte 9,
  above both capacities.
\<close>

definition unreadable_sd :: SDCard where
  "unreadable_sd = \<lparr>sd_files = (\<lambda>path. Some [1]), sd_dirs = [], sd_open_ok = False\<rparr>"

definition corrupt_sd :: SDCard where
  "corrupt_sd = \<lparr>sd_files = (\<lambda>path. Some [9, 1, 2, 3]), sd_dirs = [], sd_open_ok = True\<rparr>"

section \<open>Bounded-array management\<close>


lemma shift_down_loop:
  "index \<le> k \<Longrightarrow> k < length xs \<Longrightarrow>
   (let ys = foldl (\<lambda>ys i. ys[i := ys ! (i + 1)]) xs [index..<k] in
      length ys = length xs \<and>
      (\<forall>i < length xs. ys ! i = (if index \<le> i \<and> i < k then xs ! (i + 1) else xs ! i)))"
proof (induction k)
  case 0
  then show ?case by simp
next
  case (Suc k)
  show ?case
  proof (cases "index \<le> k")
    case False
    with Suc.prems have "index = Suc k" by simp
    then show ?thesis by auto
  next
    case True
    define ys where "ys = foldl (\<lambda>ys i. ys[i := ys ! (i + 1)]) xs [index..<k]"
    from Suc.IH True Suc.prems have ih: "length ys = length xs"
      "\<forall>i < length xs. ys ! i = (if index \<le> i \<and> i < k then xs ! (i + 1) else xs ! i)"
      by (simp_all add: ys_def Let_def)
    have step: "foldl (\<lambda>ys i. ys[i := ys ! (i + 1)]) xs [index..<Suc k] = ys[k := ys ! (k + 1)]"
      using True by (simp add: ys_def)
    have "ys ! (k + 1) = xs ! (k + 1)" using ih(2) Suc.prems by simp
    then show ?thesis
      unfolding Let_def step using ih Suc.prems True
      by (auto simp: nth_list_update)
  qed
qed

lemma shift_down_length:
  assumes "index < n" "n \<le> length xs"
  shows "length (shift_down xs index n) = length xs"
  using shift_down_loop [of index "n - 1" xs] assms
  by (simp add: shift_down_def Let_def)

lemma shift_down_nth:
  assumes "index < n" "n \<le> length xs" "i < length xs"
  shows "shift_down xs index n ! i = (if index \<le> i \<and> i < n - 1 then xs ! (i + 1) else xs ! i)"
  using shift_down_loop [of index "n - 1" xs] assms
  by (simp add: shift_down_def Let_def)

lemma shift_down_take:
  assumes "index < n" "n \<le> length xs"
  shows "take (n - 1) (shift_down xs index n) = take index xs @ drop (index + 1) (take n xs)"
proof (rule nth_equalityI)
  show "length (take (n - 1) (shift_down xs index n)) =
        length (take index xs @ drop (index + 1) (take n xs))"
    using assms by (simp add: shift_down_length)
next
  fix i assume "i < length (take (n - 1) (shift_down xs index n))"
  then have i: "i < n - 1" "i < length xs" using assms by (simp_all add: shift_down_length)
  show "take (n - 1) (shift_down xs index n) ! i =
        (take index xs @ drop (index + 1) (take n xs)) ! i"
  proof (cases "i < index")
    case True
    then show ?thesis using assms i by (simp add: shift_down_nth nth_append)
  next
    case False
    then have "i - index + (index + 1) = i + 1" by simp
    then show ?thesis using assms i False
      by (simp add: shift_down_nth nth_append min_def)
  qed
qed

lemma shift_down_drop:
  assumes "index < n" "n \<le> length xs"
  shows "drop (n - 1) (shift_down xs index n) = drop (n - 1) xs"
proof (rule nth_equalityI)
  show "length (drop (n - 1) (shift_down xs index n)) = length (drop (n - 1) xs)"
    using assms by (simp add: shift_down_length)
next
  fix i assume "i < length (drop (n - 1) (shift_down xs index n))"
  then have "n - 1 + i < length xs" using assms by (simp add: shift_down_length)
  then show "drop (n - 1) (shift_down xs index n) ! i = drop (n - 1) xs ! i"
    using assms by (auto simp: shift_down_nth shift_down_length)
qed

lemma word_pred_unat: "(i::u8) < n \<Longrightarrow> unat (n - 1) = unat n - 1"
proof -
  assume "i < n"
  then have "n \<noteq> 0" by (auto simp: word_less_nat_alt)
  then show ?thesis by (rule unat_minus_one)
qed

text \<open>
  Claim C9. \<open>addRule\<close> and \<open>addSchedule\<close> return false and the unchanged engine when
  the collection is at capacity or the relay id is out of range, \<open>addSchedule\<close> also for
  an hour above 23 or a minute above 59. For an index at or beyond the count,
  \<open>removeRule\<close> and \<open>removeSchedule\<close> return false and the unchanged engine,
  \<open>setRuleEnabled\<close> and \<open>setScheduleEnabled\<close> change nothing, and \<open>getRule\<close> and
  \<open>getSchedule\<close> return null. For an index below the count the removal returns true,
  the count goes down by one, and the entries that count are the old ones without the
  entry at the index, in their order.
\<close>

theorem management_operations:
  "(ruleCount c \<ge> MAX_AUTOMATION_RULES \<or> rid \<ge> RELAY_COUNT
      \<longrightarrow> addRule rid trig act thr c = (False, c)) \<and>
   (scheduleCount sc \<ge> MAX_SCHEDULES \<or> rid \<ge> RELAY_COUNT \<or>
    onH > 23 \<or> offH > 23 \<or> onM > 59 \<or> offM > 59
      \<longrightarrow> addSchedule rid onH onM offH offM days sc = (False, sc)) \<and>
   (index \<ge> ruleCount c
      \<longrightarrow> removeRule index c = (False, c) \<and> setRuleEnabled index en c = c \<and>
          getRule index c = None) \<and>
   (index \<ge> scheduleCount sc
      \<longrightarrow> removeSchedule index sc = (False, sc) \<and> setScheduleEnabled index en sc = sc \<and>
          getSchedule index sc = None) \<and>
   (wf_automation c \<and> index < ruleCount c
      \<longrightarrow> (let c' = snd (removeRule index c) in
            fst (removeRule index c) \<and>
            unat (ruleCount c') = unat (ruleCount c) - 1 \<and>
            take (unat (ruleCount c')) (rules c') =
              take (unat index) (rules c) @
              drop (unat index + 1) (take (unat (ruleCount c)) (rules c)) \<and>
            length (rules c') = length (rules c) \<and>
            automationEnabled c' = automationEnabled c \<and>
            lastTemperature c' = lastTemperature c)) \<and>
   (wf_schedule sc \<and> index < scheduleCount sc
      \<longrightarrow> (let sc' = snd (removeSchedule index sc) in
            fst (removeSchedule index sc) \<and>
            unat (scheduleCount sc') = unat (scheduleCount sc) - 1 \<and>
            take (unat (scheduleCount sc')) (schedules sc') =
              take (unat index) (schedules sc) @
              drop (unat index + 1) (take (unat (scheduleCount sc)) (schedules sc)) \<and>
            length (schedules sc') = length (schedules sc) \<and>
            timers sc' = timers sc \<and> timerCount sc' = timerCount sc \<and>
            rtcAvailable sc' = rtcAvailable sc \<and> lastMinute sc' = lastMinute sc))"
proof -
  have a: "addRule rid trig act thr c = (False, c)"
    if "ruleCount c \<ge> MAX_AUTOMATION_RULES \<or> rid \<ge> RELAY_COUNT"
    using that by (auto simp: addRule_def)
  have b: "addSchedule rid onH onM offH offM days sc = (False, sc)"
    if "scheduleCount sc \<ge> MAX_SCHEDULES \<or> rid \<ge> RELAY_COUNT \<or>
        onH > 23 \<or> offH > 23 \<or> onM > 59 \<or> offM > 59"
    using that by (auto simp: addSchedule_def)
  have c: "removeRule index c = (False, c) \<and> setRuleEnabled index en c = c \<and>
          getRule index c = None" if "index \<ge> ruleCount c"
    using that by (simp add: removeRule_def setRuleEnabled_def getRule_def not_less)
  have d: "removeSchedule index sc = (False, sc) \<and> setScheduleEnabled index en sc = sc \<and>
          getSchedule index sc = None" if "index \<ge> scheduleCount sc"
    using that by (simp add: removeSchedule_def setScheduleEnabled_def getSchedule_def not_less)
  have e: "let c' = snd (removeRule index c) in
            fst (removeRule index c) \<and>
            unat (ruleCount c') = unat (ruleCount c) - 1 \<and>
            take (unat (ruleCount c')) (rules c') =
              take (unat index) (rules c) @
              drop (unat index + 1) (take (unat (ruleCount c)) (rules c)) \<and>
            length (rules c') = length (rules c) \<and>
            automationEnabled c' = automationEnabled c \<and>
            lastTemperature c' = lastTemperature c"
    if "wf_automation c" "index < ruleCount c"
  proof -
    have n: "unat index < unat (ruleCount c)" "unat (ruleCount c) \<le> length (rules c)"
      using that by (simp_all add: word_less_nat_alt wf_automation_def word_le_nat_alt)
    have p: "unat (ruleCount c - 1) = unat (ruleCount c) - 1"
      using that(2) by (rule word_pred_unat)
    show ?thesis
      using that(2) n p shift_down_take [OF n] shift_down_length [OF n]
      by (simp add: removeRule_def Let_def not_le)
  qed
  have f: "let sc' = snd (removeSchedule index sc) in
            fst (removeSchedule index sc) \<and>
            unat (scheduleCount sc') = unat (scheduleCount sc) - 1 \<and>
            take (unat (scheduleCount sc')) (schedules sc') =
              take (unat index) (schedules sc) @
              drop (unat index + 1) (take (unat (scheduleCount sc)) (schedules sc)) \<and>
            length (schedules sc') = length (schedules sc) \<and>
            timers sc' = timers sc \<and> timerCount sc' = timerCount sc \<and>
            rtcAvailable sc' = rtcAvailable sc \<and> lastMinute sc' = lastMinute sc"
    if "wf_schedule sc" "index < scheduleCount sc"
  proof -
    have n: "unat index < unat (scheduleCount sc)" "unat (scheduleCount sc) \<le> length (schedules sc)"
      using that by (simp_all add: word_less_nat_alt wf_schedule_def word_le_nat_alt)
    have p: "unat (scheduleCount sc - 1) = unat (scheduleCount sc) - 1"
      using that(2) by (rule word_pred_unat)
    show ?thesis
      using that(2) n p shift_down_take [OF n] shift_down_length [OF n]
      by (simp add: removeSchedule_def Let_def not_le)
  qed
  show ?thesis using a b c d e f by blast
qed

lemma wf_full_automation: "wf_automation full_automation"
  by (simp add: wf_automation_def full_automation_def MAX_AUTOMATION_RULES_def)

lemma wf_full_schedules: "wf_schedule full_schedules"
  by (simp add: wf_schedule_def full_schedules_def MAX_SCHEDULES_def MAX_TIMERS_def)

text \<open>
  Both engines at full capacity: every add is refused, index 5 (and 6 for the
  schedules) is out of range, and removing index 1 leaves the other entries in order.
\<close>

theorem management_operations_witness:
  "ruleCount full_automation \<ge> MAX_AUTOMATION_RULES \<and>
   addRule 0 TEMP_HIGH TURN_ON 30 full_automation = (False, full_automation) \<and>
   scheduleCount full_schedules \<ge> MAX_SCHEDULES \<and>
   addSchedule 0 8 0 9 0 SCHEDULE_DAILY full_schedules = (False, full_schedules) \<and>
   (5::u8) \<ge> ruleCount full_automation \<and>
   removeRule 5 full_automation = (False, full_automation) \<and>
   setRuleEnabled 5 False full_automation = full_automation \<and>
   getRule 5 full_automation = None \<and>
   (6::u8) \<ge> scheduleCount full_schedules \<and>
   removeSchedule 6 full_schedules = (False, full_schedules) \<and>
   setScheduleEnabled 6 False full_schedules = full_schedules \<and>
   getSchedule 6 full_schedules = None \<and>
   wf_automation full_automation \<and> (1::u8) < ruleCount full_automation \<and>
   fst (removeRule 1 full_automation) \<and>
   unat (ruleCount (snd (removeRule 1 full_automation))) = 4 \<and>
   take (unat (ruleCount (snd (removeRule 1 full_automation)))) (rules (snd (removeRule 1 full_automation))) =
     [numbered_rule 20, numbered_rule 22, numbered_rule 23, numbered_rule 24] \<and>
   wf_schedule full_schedules \<and> (1::u8) < scheduleCount full_schedules \<and>
   fst (removeSchedule 1 full_schedules) \<and>
   unat (scheduleCount (snd (removeSchedule 1 full_schedules))) = 5 \<and>
   take (unat (scheduleCount (snd (removeSchedule 1 full_schedules)))) (schedules (snd (removeSchedule 1 full_schedules))) =
     [numbered_schedule 1, numbered_schedule 3, numbered_schedule 4, numbered_schedule 5,
      numbered_schedule 6]"
proof -
  have c: "ruleCount full_automation = 5" "scheduleCount full_schedules = 6"
    "rules full_automation = [numbered_rule 20, numbered_rule 21, numbered_rule 22,
       numbered_rule 23, numbered_rule 24]"
    "schedules full_schedules = [numbered_schedule 1, numbered_schedule 2, numbered_schedule 3,
                   numbered_schedule 4, numbered_schedule 5, numbered_schedule 6]"
    by (simp_all add: full_automation_def full_schedules_def)
  show ?thesis
    using management_operations [of full_automation 0 TEMP_HIGH TURN_ON 30 full_schedules
            8 9 0 0 SCHEDULE_DAILY 5 False]
          management_operations [of full_automation 0 TEMP_HIGH TURN_ON 30 full_schedules
            8 9 0 0 SCHEDULE_DAILY 6 False]
          management_operations [of full_automation 0 TEMP_HIGH TURN_ON 30 full_schedules
            8 9 0 0 SCHEDULE_DAILY 1 False]
          wf_full_automation wf_full_schedules
    by (auto simp: c MAX_AUTOMATION_RULES_def MAX_SCHEDULES_def Let_def)
qed

section \<open>Properties of the rule engine\<close>

subsection \<open>The evaluation loop\<close>

lemma evaluate_loop_Suc:
  "evaluate_loop m t cb s (Suc k) = evaluate_step m t cb (evaluate_loop m t cb s k) k"
  by (simp add: evaluate_loop_def)

lemma evaluate_loop_0: "evaluate_loop m t cb s 0 = s"
  by (simp add: evaluate_loop_def)

lemma fst_evaluate_rule_env:
  "fst (evaluate_rule now t cb r env) = fst (evaluate_rule now t cb' r env')"
  by (simp add: evaluate_rule_def Let_def)

lemma calls_executeAction:
  "calls (executeAction r cb env) =
     (if cb \<noteq> None \<and> relayId r < RELAY_COUNT \<and>
         (action r = TURN_ON \<or> action r = TURN_OFF \<or> action r = TOGGLE)
      then calls env @ [(relayId r, if action r = TURN_ON then True
                                      else if action r = TURN_OFF then False
                                      else \<not> relayStates env (relayId r))]
      else calls env)"
  by (auto simp: executeAction_def invoke_def not_le split: option.splits)

lemma length_calls_evaluate_rule:
  "length (calls (snd (evaluate_rule now t cb r env))) =
     length (calls env) + (if actuates t cb r then 1 else 0)"
  by (auto simp: evaluate_rule_def Let_def calls_executeAction actuates_def)

text \<open>
  After \<open>k\<close> iterations the first \<open>k\<close> rules have each gone through the loop body once,
  the others are untouched, and one call was logged per actuating rule.
\<close>

lemma evaluate_loop_inv:
  "k \<le> length (rules c) \<Longrightarrow>
   (let s = evaluate_loop m t cb (c, env) k in
      length (rules (fst s)) = length (rules c) \<and>
      ruleCount (fst s) = ruleCount c \<and>
      automationEnabled (fst s) = automationEnabled c \<and>
      lastTemperature (fst s) = lastTemperature c \<and>
      (\<forall>i<k. rules (fst s) ! i = fst (evaluate_rule (m i) t cb (rules c ! i) env)) \<and>
      (\<forall>i\<ge>k. rules (fst s) ! i = rules c ! i) \<and>
      length (calls (snd s)) =
        length (calls env) + length (filter (actuates t cb) (take k (rules c))))"
proof (induction k)
  case 0
  then show ?case by (simp add: evaluate_loop_0)
next
  case (Suc k)
  define s where "s = evaluate_loop m t cb (c, env) k"
  have k: "k < length (rules c)" using Suc.prems by simp
  from Suc.IH k have ih:
    "length (rules (fst s)) = length (rules c)"
    "ruleCount (fst s) = ruleCount c"
    "automationEnabled (fst s) = automationEnabled c"
    "lastTemperature (fst s) = lastTemperature c"
    "\<forall>i<k. rules (fst s) ! i = fst (evaluate_rule (m i) t cb (rules c ! i) env)"
    "\<forall>i\<ge>k. rules (fst s) ! i = rules c ! i"
    "length (calls (snd s)) =
        length (calls env) + length (filter (actuates t cb) (take k (rules c)))"
    by (simp_all add: s_def Let_def)
  have cur: "rules (fst s) ! k = rules c ! k" using ih(6) by simp
  define s' where "s' = evaluate_step m t cb s k"
  have s': "evaluate_loop m t cb (c, env) (Suc k) = s'"
    by (simp add: evaluate_loop_Suc s_def s'_def)
  have r': "rules (fst s') = (rules (fst s))[k := fst (evaluate_rule (m k) t cb (rules c ! k) (snd s))]"
    by (simp add: s'_def evaluate_step_def cur split: prod.splits)
  have e': "snd s' = snd (evaluate_rule (m k) t cb (rules c ! k) (snd s))"
    by (simp add: s'_def evaluate_step_def cur split: prod.splits)
  have o': "ruleCount (fst s') = ruleCount (fst s)"
       "automationEnabled (fst s') = automationEnabled (fst s)"
       "lastTemperature (fst s') = lastTemperature (fst s)"
    by (simp_all add: s'_def evaluate_step_def split: prod.splits)
  have take: "take (Suc k) (rules c) = take k (rules c) @ [rules c ! k]"
    using k by (simp add: take_Suc_conv_app_nth)
  have a: "\<forall>i<Suc k. rules (fst s') ! i = fst (evaluate_rule (m i) t cb (rules c ! i) env)"
  proof (intro allI impI)
    fix i assume "i < Suc k"
    then consider "i < k" | "i = k" by linarith
    then show "rules (fst s') ! i = fst (evaluate_rule (m i) t cb (rules c ! i) env)"
    proof cases
      case 1 then show ?thesis using ih(5) by (simp add: r')
    next
      case 2 then show ?thesis using k ih(1)
        by (simp add: r' fst_evaluate_rule_env [of _ _ _ _ "snd s" cb env])
    qed
  qed
  have b: "\<forall>i\<ge>Suc k. rules (fst s') ! i = rules c ! i"
    using ih(6) by (simp add: r')
  have c: "length (calls (snd s')) =
        length (calls env) + length (filter (actuates t cb) (take (Suc k) (rules c)))"
    by (simp add: e' length_calls_evaluate_rule ih(7) take)
  show ?case
    unfolding Let_def s' using a b c ih(1-4) o' by (simp add: r')
qed

lemma wf_automation_count: "wf_automation c \<Longrightarrow> unat (ruleCount c) \<le> length (rules c)"
  by (simp add: wf_automation_def word_le_nat_alt)

lemma evaluate_nth:
  assumes "wf_automation c" "i < unat (ruleCount c)"
  shows "rules (fst (evaluate m t cb c env)) ! i =
           (if automationEnabled c then fst (evaluate_rule (m i) t cb (rules c ! i) env)
            else rules c ! i)"
proof -
  have "unat (ruleCount c) \<le> length (rules (c\<lparr>lastTemperature := t\<rparr>))"
    using wf_automation_count [OF assms(1)] by simp
  from evaluate_loop_inv [OF this, of m t cb env] assms(2) show ?thesis
    by (simp add: evaluate_def Let_def)
qed

lemma evaluate_length_calls:
  assumes "wf_automation c" "automationEnabled c"
  shows "length (calls (snd (evaluate m t cb c env))) =
           length (calls env) +
           length (filter (actuates t cb) (take (unat (ruleCount c)) (rules c)))"
proof -
  have "unat (ruleCount c) \<le> length (rules (c\<lparr>lastTemperature := t\<rparr>))"
    using wf_automation_count [OF assms(1)] by simp
  from evaluate_loop_inv [OF this, of m t cb env] assms(2) show ?thesis
    by (simp add: evaluate_def Let_def)
qed

lemma wf_scenarioA: "wf_automation (scenarioA_controller b)"
  by (simp add: wf_automation_def scenarioA_controller_def MAX_AUTOMATION_RULES_def)

subsection \<open>Hysteresis of threshold-high rules\<close>

text \<open>
  Claim C1. For a rule of trigger kind threshold-high, \<open>evaluateCondition\<close> is
  \<open>measurement \<ge> threshold\<close> while the rule is not triggered and
  \<open>measurement \<ge> threshold - hysteresis\<close> (over the integers) once it is. So the loop
  body leaves a triggered rule and the environment as they are for every reading at or
  above \<open>threshold - hysteresis\<close>, in particular in the band below the threshold: the
  flag stays set and nothing is actuated. The flag of a triggered rule is cleared only
  by a reading below \<open>threshold - hysteresis\<close>, and such a reading clears it, without a
  callback, when the rule is enabled. The same holds for rule \<open>i\<close> of a controller after
  a whole call of \<open>evaluate\<close>.
\<close>

theorem threshold_high_hysteresis:
  assumes "triggerType rule = TEMP_HIGH"
  shows "(evaluateCondition rule t \<longleftrightarrow>
            (if currentlyTriggered rule
             then uint t \<ge> uint (threshold rule) - uint (hysteresis rule)
             else uint t \<ge> uint (threshold rule))) \<and>
         (currentlyTriggered rule \<and> uint (threshold rule) - uint (hysteresis rule) \<le> uint t
            \<longrightarrow> evaluate_rule now t cb rule env = (rule, env)) \<and>
         (currentlyTriggered rule \<and> \<not> currentlyTriggered (fst (evaluate_rule now t cb rule env))
            \<longrightarrow> uint t < uint (threshold rule) - uint (hysteresis rule)) \<and>
         (enabled rule \<and> currentlyTriggered rule \<and>
          uint t < uint (threshold rule) - uint (hysteresis rule)
            \<longrightarrow> evaluate_rule now t cb rule env = (rule\<lparr>currentlyTriggered := False\<rparr>, env)) \<and>
         (wf_automation c \<and> i < unat (ruleCount c) \<and> rules c ! i = rule \<and> currentlyTriggered rule
            \<longrightarrow> (uint (threshold rule) - uint (hysteresis rule) \<le> uint t
                   \<longrightarrow> rules (fst (evaluate m t cb c env)) ! i = rule) \<and>
                (\<not> currentlyTriggered (rules (fst (evaluate m t cb c env)) ! i)
                   \<longrightarrow> uint t < uint (threshold rule) - uint (hysteresis rule)))"
proof -
  have 1: "evaluateCondition rule t \<longleftrightarrow>
            (if currentlyTriggered rule
             then uint t \<ge> uint (threshold rule) - uint (hysteresis rule)
             else uint t \<ge> uint (threshold rule))"
    using assms by (simp add: evaluateCondition_def word_le_def)
  have 2: "evaluate_rule now' t cb rule env' = (rule, env')"
    if "currentlyTriggered rule" "uint (threshold rule) - uint (hysteresis rule) \<le> uint t"
    for now' env'
    using that 1 by (simp add: evaluate_rule_def Let_def)
  have 3: "uint t < uint (threshold rule) - uint (hysteresis rule)"
    if "currentlyTriggered rule" "\<not> currentlyTriggered (fst (evaluate_rule now' t cb rule env'))"
    for now' env'
    using that 1 by (auto simp: evaluate_rule_def Let_def split: if_splits)
  have 4: "evaluate_rule now t cb rule env = (rule\<lparr>currentlyTriggered := False\<rparr>, env)"
    if "enabled rule" "currentlyTriggered rule"
       "uint t < uint (threshold rule) - uint (hysteresis rule)"
    using that 1 by (simp add: evaluate_rule_def Let_def)
  have 5: "rules (fst (evaluate m t cb c env)) ! i = rule"
    if "wf_automation c" "i < unat (ruleCount c)" "rules c ! i = rule" "currentlyTriggered rule"
       "uint (threshold rule) - uint (hysteresis rule) \<le> uint t"
    using that 2 by (simp add: evaluate_nth)
  have 6: "uint t < uint (threshold rule) - uint (hysteresis rule)"
    if "wf_automation c" "i < unat (ruleCount c)" "rules c ! i = rule" "currentlyTriggered rule"
       "\<not> currentlyTriggered (rules (fst (evaluate m t cb c env)) ! i)"
    using that 3 [of "m i" env] by (simp add: evaluate_nth split: if_splits)
  show ?thesis using 1 2 3 4 5 6 by blast
qed

text \<open>
  Scenario A of the spec, once triggered: the reading 27 lies in the band [26, 28) and
  changes nothing; the reading 25 clears the flag without a callback.
\<close>

theorem threshold_high_hysteresis_witness:
  "triggerType (scenarioA_rule True) = TEMP_HIGH \<and>
   wf_automation (scenarioA_controller True) \<and>
   0 < unat (ruleCount (scenarioA_controller True)) \<and>
   rules (scenarioA_controller True) ! 0 = scenarioA_rule True \<and>
   currentlyTriggered (scenarioA_rule True) \<and>
   uint (threshold (scenarioA_rule True)) - uint (hysteresis (scenarioA_rule True)) \<le> uint (27 :: u8) \<and>
   uint (27 :: u8) < uint (threshold (scenarioA_rule True)) \<and>
   evaluateCondition (scenarioA_rule True) 27 \<and>
   evaluate_rule 0 27 (Some set_relay) (scenarioA_rule True) env0 = (scenarioA_rule True, env0) \<and>
   rules (fst (evaluate millis7 27 (Some set_relay) (scenarioA_controller True) env0)) ! 0
     = scenarioA_rule True \<and>
   uint (25 :: u8) < uint (threshold (scenarioA_rule True)) - uint (hysteresis (scenarioA_rule True)) \<and>
   evaluate_rule 0 25 (Some set_relay) (scenarioA_rule True) env0
     = (scenarioA_rule False, env0)"
  using threshold_high_hysteresis [of "scenarioA_rule True" 27 0 "Some set_relay" env0
          "scenarioA_controller True" 0 millis7]
        threshold_high_hysteresis [of "scenarioA_rule True" 25 0 "Some set_relay" env0
          "scenarioA_controller True" 0 millis7]
        wf_scenarioA [of True]
  by (simp add: scenarioA_rule_def scenarioA_controller_def)

subsection \<open>Edge-triggered actuation\<close>

text \<open>
  Claim C2 as stated fails: with a null callback, the enabled rule of Scenario A goes
  from not triggered to triggered at the reading 28 (the flag is set) and no callback
  invocation is made. The same happens with a callback for an enabled rule whose relay
  id is 7.
\<close>

theorem evaluate_callback_counterexample:
  "automationEnabled (scenarioA_controller False) \<and>
   wf_automation (scenarioA_controller False) \<and>
   ruleCount (scenarioA_controller False) = 1 \<and>
   rules (scenarioA_controller False) ! 0 = scenarioA_rule False \<and>
   enabled (scenarioA_rule False) \<and>
   \<not> currentlyTriggered (scenarioA_rule False) \<and>
   evaluateCondition (scenarioA_rule False) 28 \<and>
   currentlyTriggered (rules (fst (evaluate millis7 28 None (scenarioA_controller False) env0)) ! 0) \<and>
   calls (snd (evaluate millis7 28 None (scenarioA_controller False) env0)) = [] \<and>
   enabled (relay7_rule False) \<and> \<not> currentlyTriggered (relay7_rule False) \<and>
   evaluateCondition (relay7_rule False) 28 \<and>
   currentlyTriggered (fst (evaluate_rule 7 28 (Some set_relay) (relay7_rule False) env0)) \<and>
   calls (snd (evaluate_rule 7 28 (Some set_relay) (relay7_rule False) env0)) = []"
  by (simp add: wf_automation_def MAX_AUTOMATION_RULES_def evaluate_def evaluate_loop_def
        evaluate_step_def evaluate_rule_def evaluateCondition_def executeAction_def
        scenarioA_controller_def scenarioA_rule_def relay7_rule_def RELAY_COUNT_def
        env0_def TEMP_HIGH_def Let_def millis7_def)

text \<open>
  Claim C2, amended. For an enabled rule whose condition goes from false to true, the
  loop body sets the triggered flag and the trigger timestamp and runs \<open>executeAction\<close>,
  which invokes the callback exactly once if the callback is not null, the relay id is
  below \<open>RELAY_COUNT\<close> and the action is turn-on, turn-off or toggle, and not at all
  otherwise. When the condition goes from true to false the flag is cleared and nothing
  is invoked; while the flag is set and the condition holds nothing changes. With
  automation disabled \<open>evaluate\<close> changes nothing. With automation enabled every rule
  below \<open>ruleCount\<close> goes through the loop body once, and the number of invocations of
  one call of \<open>evaluate\<close> is the number of actuating rules.
\<close>

theorem evaluate_edge_triggered:
  "(enabled r \<and> evaluateCondition r t \<and> \<not> currentlyTriggered r \<longrightarrow>
      evaluate_rule now t cb r env =
        (r\<lparr>currentlyTriggered := True, lastTriggerTime := now\<rparr>, executeAction r cb env) \<and>
      calls (executeAction r cb env) =
        (if cb \<noteq> None \<and> relayId r < RELAY_COUNT \<and>
            (action r = TURN_ON \<or> action r = TURN_OFF \<or> action r = TOGGLE)
         then calls env @ [(relayId r, if action r = TURN_ON then True
                                         else if action r = TURN_OFF then False
                                         else \<not> relayStates env (relayId r))]
         else calls env)) \<and>
   (enabled r \<and> \<not> evaluateCondition r t \<and> currentlyTriggered r \<longrightarrow>
      evaluate_rule now t cb r env = (r\<lparr>currentlyTriggered := False\<rparr>, env)) \<and>
   (evaluateCondition r t \<and> currentlyTriggered r \<longrightarrow> evaluate_rule now t cb r env = (r, env)) \<and>
   (\<not> automationEnabled c \<longrightarrow> evaluate m t cb c env = (c, env)) \<and>
   (wf_automation c \<and> automationEnabled c \<longrightarrow>
      (\<forall>i < unat (ruleCount c).
         rules (fst (evaluate m t cb c env)) ! i = fst (evaluate_rule (m i) t cb (rules c ! i) env)) \<and>
      length (calls (snd (evaluate m t cb c env))) =
        length (calls env) + length (filter (actuates t cb) (take (unat (ruleCount c)) (rules c))))"
proof -
  have a: "evaluate_rule now t cb r env =
        (r\<lparr>currentlyTriggered := True, lastTriggerTime := now\<rparr>, executeAction r cb env)"
    if "enabled r" "evaluateCondition r t" "\<not> currentlyTriggered r"
    using that by (simp add: evaluate_rule_def)
  have b: "evaluate_rule now t cb r env = (r\<lparr>currentlyTriggered := False\<rparr>, env)"
    if "enabled r" "\<not> evaluateCondition r t" "currentlyTriggered r"
    using that by (simp add: evaluate_rule_def)
  have c: "evaluate_rule now t cb r env = (r, env)"
    if "evaluateCondition r t" "currentlyTriggered r"
    using that by (simp add: evaluate_rule_def)
  have d: "evaluate m t cb c env = (c, env)" if "\<not> automationEnabled c"
    using that by (simp add: evaluate_def)
  show ?thesis
    using a b c d calls_executeAction [of r cb env] evaluate_nth [of c _ m t cb env]
      evaluate_length_calls [of c m t cb env]
    by simp
qed

text \<open>
  Scenario A with a callback: the reading 28 triggers the rule with one turn-on call
  for relay 2; 25 clears the flag of the triggered rule; 29 leaves it alone.
\<close>

theorem evaluate_edge_triggered_witness:
  "enabled (scenarioA_rule False) \<and> evaluateCondition (scenarioA_rule False) 28 \<and>
   \<not> currentlyTriggered (scenarioA_rule False) \<and>
   Some set_relay \<noteq> None \<and> relayId (scenarioA_rule False) < RELAY_COUNT \<and>
   action (scenarioA_rule False) = TURN_ON \<and>
   evaluate_rule 7 28 (Some set_relay) (scenarioA_rule False) env0 =
     ((scenarioA_rule True)\<lparr>lastTriggerTime := 7\<rparr>,
      executeAction (scenarioA_rule False) (Some set_relay) env0) \<and>
   calls (executeAction (scenarioA_rule False) (Some set_relay) env0) = [(2, True)] \<and>
   wf_automation (scenarioA_controller False) \<and> automationEnabled (scenarioA_controller False) \<and>
   length (calls (snd (evaluate millis7 28 (Some set_relay) (scenarioA_controller False) env0))) = 1 \<and>
   \<not> evaluateCondition (scenarioA_rule True) 25 \<and>
   evaluate_rule 7 25 (Some set_relay) (scenarioA_rule True) env0 = (scenarioA_rule False, env0) \<and>
   evaluateCondition (scenarioA_rule True) 29 \<and>
   evaluate_rule 7 29 (Some set_relay) (scenarioA_rule True) env0 = (scenarioA_rule True, env0) \<and>
   \<not> automationEnabled ((scenarioA_controller False)\<lparr>automationEnabled := False\<rparr>) \<and>
   evaluate millis7 25 (Some set_relay) ((scenarioA_controller False)\<lparr>automationEnabled := False\<rparr>) env0
     = ((scenarioA_controller False)\<lparr>automationEnabled := False\<rparr>, env0)"
  using evaluate_edge_triggered [of "scenarioA_rule False" 28 7 "Some set_relay" env0
           "scenarioA_controller False" millis7]
        evaluate_edge_triggered [of "scenarioA_rule True" 25 7 "Some set_relay" env0
           "(scenarioA_controller False)\<lparr>automationEnabled := False\<rparr>" millis7]
        evaluate_edge_triggered [of "scenarioA_rule True" 29 7 "Some set_relay" env0
           "scenarioA_controller False" millis7]
        wf_scenarioA [of False]
  by (simp add: scenarioA_rule_def scenarioA_controller_def evaluateCondition_def actuates_def
        TEMP_HIGH_def TURN_ON_def RELAY_COUNT_def env0_def wf_automation_def MAX_AUTOMATION_RULES_def)

subsection \<open>The range of a new rule\<close>

text \<open>
  Claim C8 at the threshold 250: \<open>addRule\<close> accepts it for a range rule and stores
  \<open>thresholdHigh = 250 + 10 = 4\<close> in eight bits, below the threshold.
\<close>

theorem addRule_range_overflow:
  "fst (addRule 0 TEMP_RANGE TURN_ON 250 fresh_automation) \<and>
   ruleCount (snd (addRule 0 TEMP_RANGE TURN_ON 250 fresh_automation)) = 1 \<and>
   triggerType (rules (snd (addRule 0 TEMP_RANGE TURN_ON 250 fresh_automation)) ! 0) = TEMP_RANGE \<and>
   threshold (rules (snd (addRule 0 TEMP_RANGE TURN_ON 250 fresh_automation)) ! 0) = 250 \<and>
   thresholdHigh (rules (snd (addRule 0 TEMP_RANGE TURN_ON 250 fresh_automation)) ! 0) = 4 \<and>
   \<not> threshold (rules (snd (addRule 0 TEMP_RANGE TURN_ON 250 fresh_automation)) ! 0)
       \<le> thresholdHigh (rules (snd (addRule 0 TEMP_RANGE TURN_ON 250 fresh_automation)) ! 0)"
  by (simp add: addRule_def fresh_automation_def AutomationController_init_def
        MAX_AUTOMATION_RULES_def RELAY_COUNT_def Let_def)

section \<open>Properties of the schedule and timer engine\<close>

subsection \<open>The schedule window\<close>

lemma minutes16_eq: "minutes16 h m = unat h * 60 + unat m"
proof -
  have "unat h < 256" "unat m < 256"
    using unsigned_less [of h, where ?'a = nat] unsigned_less [of m, where ?'a = nat]
    by simp_all
  then show ?thesis by (simp add: minutes16_def)
qed

lemma isDayMatch_bit:
  "1 \<le> d \<Longrightarrow> isDayMatch sched d \<longleftrightarrow> bit (daysOfWeek sched) (unat d - 1)"
  by (auto simp: isDayMatch_def Let_def push_bit_eq_mult and_exp_eq_0_iff_not_bit)

text \<open>
  Claim C3. For a weekday from 1 to 7, a schedule is active exactly when bit
  \<open>weekday - 1\<close> of its day mask is set and the current minute of the day lies in its
  window: with on and off times in minutes since midnight, \<open>current \<ge> on\<close> or
  \<open>current < off\<close> when \<open>off < on\<close>, and \<open>on \<le> current < off\<close> otherwise. A schedule
  whose on time equals its off time is never active.
\<close>

theorem schedule_window:
  assumes "1 \<le> d" "d \<le> 7"
  shows "(shouldScheduleBeActive sched h m d \<longleftrightarrow>
            bit (daysOfWeek sched) (unat d - 1) \<and>
            (let current = unat h * 60 + unat m;
                 onMinutes = unat (onHour sched) * 60 + unat (onMinute sched);
                 offMinutes = unat (offHour sched) * 60 + unat (offMinute sched)
             in if offMinutes < onMinutes
                then current \<ge> onMinutes \<or> current < offMinutes
                else onMinutes \<le> current \<and> current < offMinutes)) \<and>
         (onHour sched = offHour sched \<and> onMinute sched = offMinute sched
            \<longrightarrow> \<not> shouldScheduleBeActive sched h m d)"
  using assms(1)
  by (auto simp: shouldScheduleBeActive_def isDayMatch_bit minutes16_eq Let_def)

text \<open>
  Scenario B of the spec on a Wednesday, then a weekdays-only mask on a Saturday and a
  schedule with equal on and off times.
\<close>

theorem schedule_window_witness:
  "(1::u8) \<le> 3 \<and> (3::u8) \<le> 7 \<and>
   \<not> shouldScheduleBeActive scenarioB_schedule 21 59 3 \<and>
   shouldScheduleBeActive scenarioB_schedule 22 0 3 \<and>
   shouldScheduleBeActive scenarioB_schedule 23 30 3 \<and>
   shouldScheduleBeActive scenarioB_schedule 5 59 3 \<and>
   \<not> shouldScheduleBeActive scenarioB_schedule 6 0 3 \<and>
   \<not> shouldScheduleBeActive scenarioB_schedule 6 1 3 \<and>
   \<not> shouldScheduleBeActive (scenarioB_schedule\<lparr>daysOfWeek := 0x1F\<rparr>) 23 30 6 \<and>
   \<not> shouldScheduleBeActive (scenarioB_schedule\<lparr>offHour := 22\<rparr>) 22 0 3"
  using schedule_window [of 3 scenarioB_schedule 21 59]
        schedule_window [of 3 scenarioB_schedule 22 0]
        schedule_window [of 3 scenarioB_schedule 23 30]
        schedule_window [of 3 scenarioB_schedule 5 59]
        schedule_window [of 3 scenarioB_schedule 6 0]
        schedule_window [of 3 scenarioB_schedule 6 1]
        schedule_window [of 6 "scenarioB_schedule\<lparr>daysOfWeek := 0x1F\<rparr>" 23 30]
        schedule_window [of 3 "scenarioB_schedule\<lparr>offHour := 22\<rparr>" 22 0]
  by (simp add: scenarioB_schedule_def SCHEDULE_DAILY_def)

subsection \<open>The two loops of the timer sweep\<close>

lemma expire_step_fst:
  "fst (expire_step now cb s i) = (fst s)[i := expire_mark now (fst s ! i)]"
  by (simp add: expire_step_def expire_mark_def timer_fires_def Let_def)

lemma expire_step_calls:
  "calls (snd (expire_step now cb s i)) = calls (snd s) @ expire_calls now cb [fst s ! i]"
  by (simp add: expire_step_def expire_calls_def timer_fires_def timer_call_def invoke_def Let_def
           split: option.splits)

lemma expire_loop:
  "n \<le> length ts \<Longrightarrow>
   (let s = foldl (expire_step now cb) (ts, env) [0..<n] in
      fst s = map (expire_mark now) (take n ts) @ drop n ts \<and>
      calls (snd s) = calls env @ expire_calls now cb (take n ts))"
proof (induction n)
  case 0
  then show ?case by (simp add: expire_calls_def split: option.splits)
next
  case (Suc n)
  define s where "s = foldl (expire_step now cb) (ts, env) [0..<n]"
  have n: "n < length ts" using Suc.prems by simp
  from Suc.IH n have ih: "fst s = map (expire_mark now) (take n ts) @ drop n ts"
    "calls (snd s) = calls env @ expire_calls now cb (take n ts)"
    by (simp_all add: s_def Let_def)
  have cur: "fst s ! n = ts ! n" using n by (simp add: ih(1) nth_append)
  have step: "foldl (expire_step now cb) (ts, env) [0..<Suc n] = expire_step now cb s n"
    by (simp add: s_def)
  have tk: "take (Suc n) ts = take n ts @ [ts ! n]"
    using n by (simp add: take_Suc_conv_app_nth)
  have dr: "drop n ts = ts ! n # drop (Suc n) ts"
    using n by (simp add: Cons_nth_drop_Suc)
  have "fst (expire_step now cb s n) = (fst s)[n := expire_mark now (ts ! n)]"
    by (simp add: expire_step_fst cur)
  also have "\<dots> = map (expire_mark now) (take (Suc n) ts) @ drop (Suc n) ts"
    using n by (simp add: ih(1) tk dr list_update_append)
  finally have a: "fst (expire_step now cb s n) =
             map (expire_mark now) (take (Suc n) ts) @ drop (Suc n) ts" .
  have b: "calls (snd (expire_step now cb s n)) =
             calls env @ expire_calls now cb (take (Suc n) ts)"
    by (simp add: expire_step_calls cur ih(2) tk expire_calls_def split: option.splits)
  show ?case unfolding Let_def step using a b by simp
qed

lemma compact_loop:
  "n \<le> length ts \<Longrightarrow>
   (let s = foldl compact_step (ts, 0) [0..<n] in
      length (fst s) = length ts \<and>
      snd s = length (filter timer_enabled (take n ts)) \<and>
      take (snd s) (fst s) = filter timer_enabled (take n ts) \<and>
      drop n (fst s) = drop n ts)"
proof (induction n)
  case 0
  then show ?case by simp
next
  case (Suc n)
  define s where "s = foldl compact_step (ts, 0) [0..<n]"
  define w where "w = snd s"
  define us where "us = fst s"
  have n: "n < length ts" using Suc.prems by simp
  from Suc.IH n have ih: "length us = length ts"
    "w = length (filter timer_enabled (take n ts))"
    "take w us = filter timer_enabled (take n ts)"
    "drop n us = drop n ts"
    by (auto simp: s_def Let_def w_def us_def)
  have wn: "w \<le> n"
    using length_filter_le [of timer_enabled "take n ts"] n by (simp add: ih(2))
  have cur: "us ! n = ts ! n"
    using ih(4) n ih(1) by (metis Cons_nth_drop_Suc list.inject)
  have step: "foldl compact_step (ts, 0) [0..<Suc n] = compact_step (us, w) n"
    by (simp add: s_def us_def w_def)
  have tk: "take (Suc n) ts = take n ts @ [ts ! n]"
    using n by (simp add: take_Suc_conv_app_nth)
  show ?case
  proof (cases "timer_enabled (ts ! n)")
    case False
    then have "compact_step (us, w) n = (us, w)"
      by (simp add: compact_step_def cur)
    moreover have "drop (Suc n) us = drop (Suc n) ts"
      using ih(4) by (metis drop_Suc tl_drop)
    ultimately show ?thesis
      unfolding Let_def step using ih False by (simp add: tk)
  next
    case True
    have upd: "compact_step (us, w) n = (us[w := ts ! n], w + 1)"
      using True by (auto simp: compact_step_def cur [symmetric])
    have w': "w < length us" using wn n ih(1) by simp
    have a: "take (w + 1) (us[w := ts ! n]) = filter timer_enabled (take (Suc n) ts)"
      using True w' ih(3) by (simp add: tk take_Suc_conv_app_nth)
    have "drop (Suc n) (us[w := ts ! n]) = drop (Suc n) us"
      using wn by simp
    also have "\<dots> = drop (Suc n) ts"
      using ih(4) by (metis drop_Suc tl_drop)
    finally have b: "drop (Suc n) (us[w := ts ! n]) = drop (Suc n) ts" .
    show ?thesis
      unfolding Let_def step upd using a b ih True by (simp add: tk)
  qed
qed

lemma filter_expire_mark:
  "filter timer_enabled (map (expire_mark now) ts) =
     filter (\<lambda>t. timer_enabled t \<and> \<not> timer_expired now t) ts"
  by (induction ts) (auto simp: expire_mark_def timer_fires_def)

lemma wf_timers_count: "wf_timers c \<Longrightarrow> unat (timerCount c) \<le> length (timers c)"
  by (simp add: wf_timers_def word_le_nat_alt)

lemma updateTimers_spec:
  fixes now cb c env
  defines "r \<equiv> updateTimers now cb c env"
  assumes "unat (timerCount c) \<le> length (timers c)"
  shows "active_timers (fst r) =
           filter (\<lambda>t. timer_enabled t \<and> \<not> timer_expired now t) (active_timers c)"
    and "unat (timerCount (fst r)) =
           length (filter (\<lambda>t. timer_enabled t \<and> \<not> timer_expired now t) (active_timers c))"
    and "length (timers (fst r)) = length (timers c)"
    and "calls (snd r) = calls env @ expire_calls now cb (active_timers c)"
    and "schedules (fst r) = schedules c" "scheduleCount (fst r) = scheduleCount c"
        "rtcAvailable (fst r) = rtcAvailable c" "lastMinute (fst r) = lastMinute c"
proof -
  define n where "n = unat (timerCount c)"
  define s1 where "s1 = foldl (expire_step now cb) (timers c, env) [0..<n]"
  define s2 where "s2 = foldl compact_step (fst s1, 0) [0..<n]"
  have n: "n \<le> length (timers c)" using assms(2) by (simp add: n_def)
  have r: "r = ((c\<lparr>timers := fst s2, timerCount := word_of_nat (snd s2)\<rparr>), snd s1)"
    by (simp add: r_def updateTimers_def Let_def n_def s1_def s2_def split: prod.splits)
  from expire_loop [OF n, of now cb env]
  have e: "fst s1 = map (expire_mark now) (take n (timers c)) @ drop n (timers c)"
          "calls (snd s1) = calls env @ expire_calls now cb (take n (timers c))"
    by (simp_all add: s1_def Let_def)
  have n1: "n \<le> length (fst s1)" using n by (simp add: e(1))
  have tk: "take n (fst s1) = map (expire_mark now) (take n (timers c))"
    using n by (simp add: e(1))
  from compact_loop [OF n1]
  have k: "length (fst s2) = length (fst s1)"
          "snd s2 = length (filter timer_enabled (take n (fst s1)))"
          "take (snd s2) (fst s2) = filter timer_enabled (take n (fst s1))"
    by (auto simp: s2_def Let_def)
  have w: "snd s2 \<le> n"
    using length_filter_le [of timer_enabled "take n (fst s1)"] n1 by (simp add: k(2))
  have u: "unat (word_of_nat (snd s2) :: u8) = snd s2"
    using w by (simp add: n_def le_unat_uoi)
  show "active_timers (fst r) =
           filter (\<lambda>t. timer_enabled t \<and> \<not> timer_expired now t) (active_timers c)"
  proof -
    have "active_timers (fst r) = take (snd s2) (fst s2)"
      by (simp add: r active_timers_def u)
    then show ?thesis
      by (simp add: active_timers_def k(3) tk filter_expire_mark flip: n_def)
  qed
  show "unat (timerCount (fst r)) =
           length (filter (\<lambda>t. timer_enabled t \<and> \<not> timer_expired now t) (active_timers c))"
  proof -
    have "unat (timerCount (fst r)) = snd s2"
      by (simp add: r u)
    then show ?thesis
      by (simp add: active_timers_def k(2) tk filter_expire_mark flip: n_def)
  qed
  show "length (timers (fst r)) = length (timers c)"
    using n by (simp add: r k(1) e(1))
  show "calls (snd r) = calls env @ expire_calls now cb (active_timers c)"
    by (simp add: r e(2) active_timers_def flip: n_def)
  show "schedules (fst r) = schedules c" "scheduleCount (fst r) = scheduleCount c"
        "rtcAvailable (fst r) = rtcAvailable c" "lastMinute (fst r) = lastMinute c"
    by (simp_all add: r)
qed

subsection \<open>Finding and cancelling a timer\<close>

lemma sint_small: "k < 128 \<Longrightarrow> sint (word_of_nat k :: 8 word) = int k"
  by (simp add: signed_of_nat signed_take_bit_int_eq_self_iff take_bit_nat_eq_self)


lemma findTimerIndex_from_cases:
  "n \<le> 128 \<Longrightarrow>
   (findTimerIndex_from ts rid n i = -1 \<and> (\<forall>j. i \<le> j \<and> j < n \<longrightarrow> \<not> timer_match rid (ts ! j))) \<or>
   (\<exists>k. i \<le> k \<and> k < n \<and> findTimerIndex_from ts rid n i = int k \<and> timer_match rid (ts ! k) \<and>
        (\<forall>j. i \<le> j \<and> j < k \<longrightarrow> \<not> timer_match rid (ts ! j)))"
proof (induction ts rid n i rule: findTimerIndex_from.induct)
  case (1 ts rid n i)
  show ?case
  proof (cases "i < n")
    case False
    then have "findTimerIndex_from ts rid n i = -1"
      by (simp add: findTimerIndex_from.simps)
    then show ?thesis using False by auto
  next
    case True
    show ?thesis
    proof (cases "timer_match rid (ts ! i)")
      case m: True
      have "findTimerIndex_from ts rid n i = int i"
        using True m "1.prems" by (simp add: findTimerIndex_from.simps timer_match_def sint_small)
      then show ?thesis using True m by auto
    next
      case m: False
      have eq: "findTimerIndex_from ts rid n i = findTimerIndex_from ts rid n (Suc i)"
        using True m by (subst findTimerIndex_from.simps) (auto simp: timer_match_def)
      from "1.IH" [OF True _ "1.prems"] m
      consider "findTimerIndex_from ts rid n (Suc i) = -1"
               "\<forall>j. Suc i \<le> j \<and> j < n \<longrightarrow> \<not> timer_match rid (ts ! j)"
        | k where "Suc i \<le> k" "k < n" "findTimerIndex_from ts rid n (Suc i) = int k"
               "timer_match rid (ts ! k)" "\<forall>j. Suc i \<le> j \<and> j < k \<longrightarrow> \<not> timer_match rid (ts ! j)"
        by (auto simp: timer_match_def)
      then show ?thesis
      proof cases
        case 1
        then have "\<forall>j. i \<le> j \<and> j < n \<longrightarrow> \<not> timer_match rid (ts ! j)"
          using m by (metis Suc_leI le_neq_implies_less)
        then show ?thesis using 1 eq by simp
      next
        case 2
        then have "\<forall>j. i \<le> j \<and> j < k \<longrightarrow> \<not> timer_match rid (ts ! j)"
          using m by (metis Suc_leI le_neq_implies_less)
        then show ?thesis using 2 eq by (intro disjI2 exI [of _ k]) simp
      qed
    qed
  qed
qed

lemma wf_timers_small: "wf_timers c \<Longrightarrow> unat (timerCount c) \<le> 5"
  by (simp add: wf_timers_def word_le_nat_alt MAX_TIMERS_def)

lemma cancelTimer_cases:
  assumes "unat (timerCount c) \<le> 128"
  shows "(\<not> fst (cancelTimer rid c) \<and> snd (cancelTimer rid c) = c \<and>
          (\<forall>j < unat (timerCount c). \<not> timer_match rid (timers c ! j))) \<or>
         (\<exists>k < unat (timerCount c). fst (cancelTimer rid c) \<and>
            snd (cancelTimer rid c) =
              c\<lparr>timers := (timers c)[k := (timers c ! k)\<lparr>timer_enabled := False\<rparr>]\<rparr> \<and>
            timer_match rid (timers c ! k) \<and> (\<forall>j < k. \<not> timer_match rid (timers c ! j)))"
  using findTimerIndex_from_cases [OF assms, of "timers c" rid 0]
  by (auto simp: cancelTimer_def findTimerIndex_def Let_def)

lemma filter_disable:
  assumes "k < length xs"
  shows "filter timer_enabled (xs[k := (xs ! k)\<lparr>timer_enabled := False\<rparr>]) =
           filter timer_enabled (take k xs) @ filter timer_enabled (drop (Suc k) xs)"
  using assms by (simp add: upd_conv_take_nth_drop)

lemma filter_split_at:
  assumes "k < length xs"
  shows "filter P xs = filter P (take k xs) @ filter P [xs ! k] @ filter P (drop (Suc k) xs)"
proof -
  have "xs = take k xs @ [xs ! k] @ drop (Suc k) xs"
    using assms by (simp add: id_take_nth_drop [symmetric])
  then have "filter P xs = filter P (take k xs @ [xs ! k] @ drop (Suc k) xs)" by simp
  then show ?thesis by (simp only: filter_append)
qed

lemma one_timer_disable:
  assumes d: "distinct (map timer_relayId (filter timer_enabled xs))"
    and k: "k < length xs" and m: "timer_match rid (xs ! k)"
  defines "ys \<equiv> xs[k := (xs ! k)\<lparr>timer_enabled := False\<rparr>]"
  shows "distinct (map timer_relayId (filter timer_enabled ys))"
    and "\<forall>t \<in> set ys. \<not> timer_match rid t"
proof -
  have en: "timer_enabled (xs ! k)" and r: "timer_relayId (xs ! k) = rid"
    using m by (simp_all add: timer_match_def)
  have f: "filter timer_enabled xs =
             filter timer_enabled (take k xs) @ [xs ! k] @ filter timer_enabled (drop (Suc k) xs)"
    using filter_split_at [OF k, of timer_enabled] en by simp
  have g: "filter timer_enabled ys =
             filter timer_enabled (take k xs) @ filter timer_enabled (drop (Suc k) xs)"
    unfolding ys_def by (rule filter_disable [OF k])
  from d show "distinct (map timer_relayId (filter timer_enabled ys))"
    unfolding f g by auto
  have no: "\<forall>t \<in> set (filter timer_enabled ys). timer_relayId t \<noteq> rid"
    using d unfolding f g by (auto simp: r)
  show "\<forall>t \<in> set ys. \<not> timer_match rid t"
  proof
    fix t assume "t \<in> set ys"
    then show "\<not> timer_match rid t" using no by (auto simp: timer_match_def)
  qed
qed

lemma cancelTimer_inv:
  fixes rid c
  defines "c1 \<equiv> snd (cancelTimer rid c)"
  assumes wf: "wf_timers c" and inv: "one_timer_per_relay c"
  shows "wf_timers c1" "one_timer_per_relay c1" "timerCount c1 = timerCount c"
    "length (timers c1) = length (timers c)"
    "\<forall>t \<in> set (active_timers c1). \<not> timer_match rid t"
    "schedules c1 = schedules c" "scheduleCount c1 = scheduleCount c"
    "rtcAvailable c1 = rtcAvailable c" "lastMinute c1 = lastMinute c"
proof -
  define n where "n = unat (timerCount c)"
  have n: "n \<le> length (timers c)" "n \<le> 128"
    using wf_timers_count [OF wf] wf_timers_small [OF wf] by (simp_all add: n_def)
  have all: "wf_timers c1 \<and> one_timer_per_relay c1 \<and> timerCount c1 = timerCount c \<and>
    length (timers c1) = length (timers c) \<and>
    (\<forall>t \<in> set (active_timers c1). \<not> timer_match rid t) \<and>
    schedules c1 = schedules c \<and> scheduleCount c1 = scheduleCount c \<and>
    rtcAvailable c1 = rtcAvailable c \<and> lastMinute c1 = lastMinute c"
    using cancelTimer_cases [OF n(2) [unfolded n_def], of rid]
  proof (elim disjE exE conjE)
    assume a: "snd (cancelTimer rid c) = c"
      "\<forall>j < unat (timerCount c). \<not> timer_match rid (timers c ! j)"
    have "\<forall>t \<in> set (active_timers c). \<not> timer_match rid t"
      using a(2) n(1) by (auto simp: active_timers_def in_set_conv_nth n_def)
    then show ?thesis using wf inv a(1) by (simp add: c1_def)
  next
    fix k assume a: "k < unat (timerCount c)"
      "snd (cancelTimer rid c) =
         c\<lparr>timers := (timers c)[k := (timers c ! k)\<lparr>timer_enabled := False\<rparr>]\<rparr>"
      "timer_match rid (timers c ! k)"
    define xs where "xs = active_timers c"
    have k: "k < length xs" "xs ! k = timers c ! k"
      using a(1) n(1) by (simp_all add: xs_def active_timers_def n_def)
    have act: "active_timers c1 = xs[k := (xs ! k)\<lparr>timer_enabled := False\<rparr>]"
      using a(1) by (simp add: c1_def a(2) active_timers_def xs_def take_update_swap)
    have d: "distinct (map timer_relayId (filter timer_enabled xs))"
      using inv by (simp add: one_timer_per_relay_def xs_def)
    have m: "timer_match rid (xs ! k)" using a(3) k(2) by simp
    from one_timer_disable [OF d k(1) m]
    have "one_timer_per_relay c1" "\<forall>t \<in> set (active_timers c1). \<not> timer_match rid t"
      by (simp_all add: one_timer_per_relay_def act)
    then show ?thesis using wf by (simp add: c1_def a(2) wf_timers_def)
  qed
  show "wf_timers c1" "one_timer_per_relay c1" "timerCount c1 = timerCount c"
    "length (timers c1) = length (timers c)"
    "\<forall>t \<in> set (active_timers c1). \<not> timer_match rid t"
    "schedules c1 = schedules c" "scheduleCount c1 = scheduleCount c"
    "rtcAvailable c1 = rtcAvailable c" "lastMinute c1 = lastMinute c"
    using all by simp_all
qed

subsection \<open>Adding a timer and sweeping keep one timer per relay\<close>

lemma Timer_all_fields:
  "t\<lparr>timer_relayId := a, startTime := b, duration := d, turnOffWhenExpired := e,
     timer_enabled := f\<rparr> = timer_slot a b d e f"
  by (cases t) (simp add: timer_slot_def)

lemma addTimer_success:
  fixes now rid dur off c
  defines "c' \<equiv> snd (addTimer now rid dur off c)"
  assumes wf: "wf_timers c" and inv: "one_timer_per_relay c"
    and cap: "timerCount c < MAX_TIMERS" and rid: "rid < RELAY_COUNT"
  shows "fst (addTimer now rid dur off c)"
    and "active_timers c' = active_timers (snd (cancelTimer rid c)) @ [timer_slot rid now dur off True]"
    and "wf_timers c'" and "one_timer_per_relay c'"
    and "filter (timer_match rid) (active_timers c') = [timer_slot rid now dur off True]"
    and "unat (timerCount c') = unat (timerCount c) + 1"
    and "schedules c' = schedules c" "scheduleCount c' = scheduleCount c"
        "rtcAvailable c' = rtcAvailable c" "lastMinute c' = lastMinute c"
proof -
  define c1 where "c1 = snd (cancelTimer rid c)"
  define n where "n = unat (timerCount c)"
  note ci = cancelTimer_inv [OF wf inv, of rid, folded c1_def]
  have n: "n < 5" "length (timers c) = 5"
    using cap wf by (simp_all add: n_def word_less_nat_alt MAX_TIMERS_def wf_timers_def)
  have g: "\<not> timerCount c \<ge> MAX_TIMERS" "\<not> rid \<ge> RELAY_COUNT"
    using cap rid by (simp_all add: not_le)
  have c': "c' = c1\<lparr>timers := (timers c1)[n := timer_slot rid now dur off True],
                     timerCount := timerCount c + 1\<rparr>"
    using g by (simp add: c'_def addTimer_def Let_def Timer_all_fields ci(3) n_def flip: c1_def)
  show "fst (addTimer now rid dur off c)"
    using g by (simp add: addTimer_def Let_def)
  have u: "unat (timerCount c + 1) = n + 1"
    using n(1) by (simp add: n_def unat_word_ariths)
  show cnt: "unat (timerCount c') = unat (timerCount c) + 1"
    by (simp add: c' u n_def)
  have l1: "length (timers c1) = 5" using ci(4) n(2) by simp
  show act: "active_timers c' = active_timers (snd (cancelTimer rid c)) @ [timer_slot rid now dur off True]"
    using n(1) l1
    by (simp add: c' active_timers_def u ci(3) take_Suc_conv_app_nth flip: c1_def n_def)
  show "wf_timers c'"
    using n l1 u by (simp add: c' wf_timers_def word_le_nat_alt MAX_TIMERS_def)
  have no: "\<forall>t \<in> set (active_timers c1). \<not> timer_match rid t" by (rule ci(5))
  then have no': "rid \<notin> timer_relayId ` set (filter timer_enabled (active_timers c1))"
    by (auto simp: timer_match_def)
  show "one_timer_per_relay c'"
    using ci(2) no'
    by (simp add: one_timer_per_relay_def act timer_slot_def flip: c1_def)
  have "filter (timer_match rid) (active_timers c1) = []"
    using no by (simp add: filter_empty_conv)
  then show "filter (timer_match rid) (active_timers c') = [timer_slot rid now dur off True]"
    by (simp add: act timer_match_def timer_slot_def flip: c1_def)
  show "schedules c' = schedules c" "scheduleCount c' = scheduleCount c"
        "rtcAvailable c' = rtcAvailable c" "lastMinute c' = lastMinute c"
    by (simp_all add: c' ci)
qed

lemma updateTimers_inv:
  assumes wf: "wf_timers c" and inv: "one_timer_per_relay c"
  shows "wf_timers (fst (updateTimers now cb c env))"
    and "one_timer_per_relay (fst (updateTimers now cb c env))"
proof -
  note u = updateTimers_spec [OF wf_timers_count [OF wf], of now cb env]
  have "length (filter (\<lambda>t. timer_enabled t \<and> \<not> timer_expired now t) (active_timers c))
          \<le> unat (timerCount c)"
    using length_filter_le [of "\<lambda>t. timer_enabled t \<and> \<not> timer_expired now t" "active_timers c"]
      wf_timers_count [OF wf]
    by (simp add: active_timers_def)
  then show "wf_timers (fst (updateTimers now cb c env))"
    using wf u(2,3) by (simp add: wf_timers_def word_le_nat_alt)
  have e: "filter timer_enabled (active_timers (fst (updateTimers now cb c env))) =
          filter (\<lambda>t. \<not> timer_expired now t) (filter timer_enabled (active_timers c))"
    by (simp add: u(1) conj_commute)
  have "distinct (map timer_relayId
          (filter (\<lambda>t. \<not> timer_expired now t) (filter timer_enabled (active_timers c))))"
    using inv unfolding one_timer_per_relay_def by (rule distinct_map_filter)
  then show "one_timer_per_relay (fst (updateTimers now cb c env))"
    unfolding one_timer_per_relay_def e .
qed

lemma load_schedule_loop_timers:
  "timers (fst (foldl load_schedule_step s is)) = timers (fst s) \<and>
   timerCount (fst (foldl load_schedule_step s is)) = timerCount (fst s)"
  by (induction "is" arbitrary: s) (simp_all add: load_schedule_step_def split: prod.splits)

lemma schedule_loadFromSD_timers:
  "timers (snd (schedule_loadFromSD c sd)) = timers c \<and>
   timerCount (snd (schedule_loadFromSD c sd)) = timerCount c"
  by (simp add: schedule_loadFromSD_def Let_def load_schedule_loop_timers
        split: option.splits prod.splits)

lemma update_eq: "update now cb c env = updateTimers now cb c env"
  by (simp add: update_def getCurrentTime_def split: prod.splits)

lemma timers_inv_cong:
  "timers c' = timers c \<Longrightarrow> timerCount c' = timerCount c \<Longrightarrow>
   wf_timers c \<and> one_timer_per_relay c \<Longrightarrow> wf_timers c' \<and> one_timer_per_relay c'"
  by (simp add: wf_timers_def one_timer_per_relay_def active_timers_def)

lemma addTimer_fail:
  "\<not> (timerCount c < MAX_TIMERS \<and> rid < RELAY_COUNT) \<Longrightarrow> addTimer now rid dur off c = (False, c)"
  unfolding addTimer_def by (auto simp: not_less)

lemma addTimer_fst:
  "fst (addTimer now rid dur off c) \<longleftrightarrow> timerCount c < MAX_TIMERS \<and> rid < RELAY_COUNT"
  unfolding addTimer_def by (auto simp: Let_def not_le)

lemma addTimer_inv:
  assumes "wf_timers c \<and> one_timer_per_relay c"
  shows "wf_timers (snd (addTimer now rid dur off c)) \<and>
         one_timer_per_relay (snd (addTimer now rid dur off c))"
proof (cases "timerCount c < MAX_TIMERS \<and> rid < RELAY_COUNT")
  case True
  then show ?thesis using assms addTimer_success(3,4) [of c rid now dur off] by simp
next
  case False
  then show ?thesis using assms by (simp add: addTimer_fail)
qed

lemma reachable_timers_inv:
  "reachable c \<Longrightarrow> wf_timers c \<and> one_timer_per_relay c"
proof (induction rule: reachable.induct)
  case (r_init smem tmem)
  then show ?case
    by (simp add: ScheduleController_init_def wf_timers_def one_timer_per_relay_def
          active_timers_def MAX_TIMERS_def)
next
  case (r_begin c sd)
  show ?case
    by (rule timers_inv_cong [OF _ _ r_begin.IH]) (simp_all add: schedule_begin_def Let_def schedule_loadFromSD_timers)
next
  case (r_update c now cb env)
  then show ?case using updateTimers_inv [of c now cb env] by (simp add: update_eq)
next
  case (r_addSchedule c rid onH onM offH offM days)
  show ?case
    by (rule timers_inv_cong [OF _ _ r_addSchedule.IH]) (simp_all add: addSchedule_def Let_def)
next
  case (r_removeSchedule c index)
  show ?case
    by (rule timers_inv_cong [OF _ _ r_removeSchedule.IH]) (simp_all add: removeSchedule_def)
next
  case (r_setScheduleEnabled c index en)
  show ?case
    by (rule timers_inv_cong [OF _ _ r_setScheduleEnabled.IH]) (simp_all add: setScheduleEnabled_def)
next
  case (r_clearAllSchedules c)
  show ?case
    by (rule timers_inv_cong [OF _ _ r_clearAllSchedules.IH]) (simp_all add: clearAllSchedules_def)
next
  case (r_addTimer c now rid dur turnOff)
  show ?case by (rule addTimer_inv [OF r_addTimer.IH])
next
  case (r_cancelTimer c rid)
  then show ?case using cancelTimer_inv(1,2) [of c rid] by simp
next
  case (r_clearAllTimers c)
  then show ?case
    by (simp add: clearAllTimers_def wf_timers_def one_timer_per_relay_def active_timers_def)
next
  case (r_loadFromSD c sd)
  show ?case
    by (rule timers_inv_cong [OF _ _ r_loadFromSD.IH]) (simp_all add: schedule_loadFromSD_timers)
qed

text \<open>
  Claim C5. In every state that the public operations reach from the constructor, the
  enabled timers among the counted slots have pairwise different relay ids. \<open>addTimer\<close>
  succeeds exactly when the count is below capacity and the relay id is in range; after
  a successful \<open>addTimer\<close> the only enabled counted timer of that relay is the new one,
  with the supplied duration and expiry flag. \<open>addTimer\<close>, \<open>cancelTimer\<close> and
  \<open>updateTimers\<close> keep the invariant.
\<close>

theorem one_timer_per_relay_invariant:
  assumes "reachable c"
  shows "wf_timers c \<and> one_timer_per_relay c \<and>
         (fst (addTimer now rid dur off c) \<longrightarrow>
            filter (timer_match rid) (active_timers (snd (addTimer now rid dur off c))) =
              [timer_slot rid now dur off True]) \<and>
         (fst (addTimer now rid dur off c) \<longleftrightarrow> timerCount c < MAX_TIMERS \<and> rid < RELAY_COUNT) \<and>
         one_timer_per_relay (snd (addTimer now rid dur off c)) \<and>
         one_timer_per_relay (snd (cancelTimer rid c)) \<and>
         one_timer_per_relay (fst (updateTimers now cb c env))"
proof -
  note i = reachable_timers_inv [OF assms]
  have a: "filter (timer_match rid) (active_timers (snd (addTimer now rid dur off c))) =
              [timer_slot rid now dur off True]" if "fst (addTimer now rid dur off c)"
  proof -
    from that have "timerCount c < MAX_TIMERS \<and> rid < RELAY_COUNT"
      by (simp add: addTimer_fst)
    then show ?thesis using addTimer_success(5) [of c rid now dur off] i by simp
  qed
  have b: "fst (addTimer now rid dur off c) \<longleftrightarrow> timerCount c < MAX_TIMERS \<and> rid < RELAY_COUNT"
    by (rule addTimer_fst)
  show ?thesis
    using i a b addTimer_inv [OF i, of now rid dur off] cancelTimer_inv(2) [of c rid]
      updateTimers_inv(2) [of c now cb env]
    by simp
qed

lemma reachable_fresh: "reachable fresh_schedules"
  unfolding fresh_schedules_def
  by (rule reachable.r_init) (simp_all add: MAX_SCHEDULES_def MAX_TIMERS_def)

lemma reachable_scenarioC_two: "reachable scenarioC_two"
  unfolding scenarioC_two_def
  by (intro reachable.r_addTimer reachable_fresh)

lemma timerCount_fresh: "timerCount fresh_schedules = 0"
  by (simp add: fresh_schedules_def ScheduleController_init_def)

lemma timerCount_scenarioC_two: "unat (timerCount scenarioC_two) = 2"
proof -
  have 1: "unat (timerCount (snd (addTimer 0 2 5 True fresh_schedules))) = 1"
    using addTimer_success(6) [of fresh_schedules 2 0 5 True]
      reachable_timers_inv [OF reachable_fresh]
    by (simp add: timerCount_fresh MAX_TIMERS_def RELAY_COUNT_def)
  have r: "reachable (snd (addTimer 0 2 5 True fresh_schedules))"
    by (intro reachable.r_addTimer reachable_fresh)
  have "timerCount (snd (addTimer 0 2 5 True fresh_schedules)) < MAX_TIMERS"
    using 1 by (simp add: word_less_nat_alt MAX_TIMERS_def)
  then show ?thesis
    using addTimer_success(6) [of "snd (addTimer 0 2 5 True fresh_schedules)" 2 0 10 True]
      reachable_timers_inv [OF r] 1
    by (simp add: scenarioC_two_def RELAY_COUNT_def)
qed

text \<open>
  Scenario C of the spec: after timers of 5 s and 10 s for relay 2, adding one of 3 s
  succeeds and leaves the 3 s timer as the only enabled timer of relay 2.
\<close>

theorem one_timer_per_relay_invariant_witness:
  "reachable scenarioC_two \<and> wf_timers scenarioC_two \<and> one_timer_per_relay scenarioC_two \<and>
   timerCount scenarioC_two < MAX_TIMERS \<and> (2 :: u8) < RELAY_COUNT \<and>
   fst (addTimer 0 2 3 True scenarioC_two) \<and>
   filter (timer_match 2) (active_timers (snd (addTimer 0 2 3 True scenarioC_two))) =
     [timer_slot 2 0 3 True True] \<and>
   one_timer_per_relay (snd (addTimer 0 2 3 True scenarioC_two))"
  using one_timer_per_relay_invariant [OF reachable_scenarioC_two, of 0 2 3 True]
    reachable_scenarioC_two timerCount_scenarioC_two
  by (simp add: word_less_nat_alt MAX_TIMERS_def RELAY_COUNT_def)

subsection \<open>The timer sweep\<close>

lemma wf_five_timers: "wf_timers five_timers"
  by (simp add: wf_timers_def five_timers_def MAX_TIMERS_def)

lemma active_five_timers:
  "active_timers five_timers =
     [timer_slot 0 0 100 True True, timer_slot 1 0 100 True False,
      timer_slot 2 0 3 True True, timer_slot 3 0 100 False True,
      timer_slot 4 0 2 False True]"
  by (simp add: active_timers_def five_timers_def)

lemma five_timers_fires:
  "\<not> timer_fires 3000 (timer_slot 0 0 100 True True)"
  "\<not> timer_fires 3000 (timer_slot 1 0 100 True False)"
  "timer_fires 3000 (timer_slot 2 0 3 True True)"
  "\<not> timer_fires 3000 (timer_slot 3 0 100 False True)"
  "timer_fires 3000 (timer_slot 4 0 2 False True)"
  by (simp_all add: timer_fires_def timer_expired_def timer_slot_def Let_def)

lemma five_timers_survivors:
  "filter (\<lambda>t. timer_enabled t \<and> \<not> timer_expired 3000 t) (active_timers five_timers) =
     [timer_slot 0 0 100 True True, timer_slot 3 0 100 False True]"
  by (simp add: active_five_timers timer_slot_def timer_expired_def)

lemma five_timers_fired:
  "filter (timer_fires 3000) (active_timers five_timers) =
     [timer_slot 2 0 3 True True, timer_slot 4 0 2 False True]"
  by (simp add: active_five_timers five_timers_fires)

lemma five_timers_enabled:
  "filter (\<lambda>t. timer_enabled t \<and> \<not> timer_expired 0 t) (active_timers five_timers) =
     [timer_slot 0 0 100 True True, timer_slot 2 0 3 True True, timer_slot 3 0 100 False True,
      timer_slot 4 0 2 False True]"
  "filter timer_enabled (active_timers five_timers) =
     [timer_slot 0 0 100 True True, timer_slot 2 0 3 True True, timer_slot 3 0 100 False True,
      timer_slot 4 0 2 False True]"
  by (simp_all add: active_five_timers timer_slot_def timer_expired_def)

text \<open>
  Claim C4 as stated fails: with a null callback the enabled timer of relay 2, which has
  expired at 3000 ms, is removed by the sweep without any callback invocation.
\<close>

theorem timer_sweep_null_callback_counterexample:
  "wf_timers five_timers \<and>
   timer_slot 2 0 3 True True \<in> set (active_timers five_timers) \<and>
   timer_enabled (timer_slot 2 0 3 True True) \<and>
   timer_expired 3000 (timer_slot 2 0 3 True True) \<and>
   calls (snd (updateTimers 3000 None five_timers env0)) = [] \<and>
   timer_slot 2 0 3 True True \<notin> set (active_timers (fst (updateTimers 3000 None five_timers env0)))"
proof -
  have "timer_slot 2 0 3 True True \<in> set (active_timers five_timers)"
    by (simp add: active_five_timers)
  moreover have "timer_enabled (timer_slot 2 0 3 True True) \<and>
      timer_expired 3000 (timer_slot 2 0 3 True True)"
    using five_timers_fires(3) by (simp add: timer_fires_def)
  moreover have "calls (snd (updateTimers 3000 None five_timers env0)) = []"
    using updateTimers_spec(4) [OF wf_timers_count [OF wf_five_timers], of 3000 None env0]
    by (simp add: expire_calls_def env0_def)
  moreover have "timer_slot 2 0 3 True True \<notin>
      set (active_timers (fst (updateTimers 3000 None five_timers env0)))"
    using updateTimers_spec(1) [OF wf_timers_count [OF wf_five_timers], of 3000 None env0]
    by (simp add: five_timers_survivors) (simp add: timer_slot_def)
  ultimately show ?thesis using wf_five_timers by simp
qed

text \<open>
  Claim C4, amended. One sweep at \<open>now\<close> invokes a non-null callback exactly once for
  every counted timer that is enabled and expired, in slot order, with the relay id and
  the negation of the turn-off-when-expired flag; a null callback is not invoked. In
  both cases the counted timers after the sweep are the enabled, unexpired ones in their
  old order, the count is their number, no timer that fired is among them, and a later
  sweep at any time \<open>now2\<close> makes calls only for timers counted then.
\<close>

theorem timer_sweep:
  assumes "wf_timers c"
  shows "(let c' = fst (updateTimers now cb c env); env' = snd (updateTimers now cb c env) in
           calls env' = calls env @
             (case cb of None \<Rightarrow> []
              | Some f \<Rightarrow> map timer_call (filter (timer_fires now) (active_timers c))) \<and>
           active_timers c' =
             filter (\<lambda>t. timer_enabled t \<and> \<not> timer_expired now t) (active_timers c) \<and>
           unat (timerCount c') = length (active_timers c') \<and>
           unat (timerCount c') \<le> unat (timerCount c) \<and>
           length (timers c') = length (timers c) \<and>
           wf_timers c' \<and>
           (\<forall>t \<in> set (active_timers c'). timer_enabled t \<and> \<not> timer_fires now t) \<and>
           (\<forall>t \<in> set (active_timers c). timer_fires now t \<longrightarrow> t \<notin> set (active_timers c')) \<and>
           calls (snd (updateTimers now2 cb c' env')) = calls env' @
             (case cb of None \<Rightarrow> []
              | Some f \<Rightarrow> map timer_call (filter (timer_fires now2) (active_timers c'))))"
proof -
  note n = wf_timers_count [OF assms]
  note u = updateTimers_spec [OF n, of now cb env]
  define c' where "c' = fst (updateTimers now cb c env)"
  define env' where "env' = snd (updateTimers now cb c env)"
  have 1: "calls env' = calls env @
             (case cb of None \<Rightarrow> []
              | Some f \<Rightarrow> map timer_call (filter (timer_fires now) (active_timers c)))"
    by (simp add: env'_def u(4) expire_calls_def)
  have 2: "active_timers c' =
             filter (\<lambda>t. timer_enabled t \<and> \<not> timer_expired now t) (active_timers c)"
    by (simp add: c'_def u(1))
  have 3: "unat (timerCount c') = length (active_timers c')"
    by (simp add: 2) (simp add: c'_def u(2))
  have "length (active_timers c') \<le> length (active_timers c)"
    unfolding 2 by (rule length_filter_le)
  then have 4: "unat (timerCount c') \<le> unat (timerCount c)"
    using n by (simp add: 3) (simp add: active_timers_def)
  have 5: "length (timers c') = length (timers c)"
    by (simp add: c'_def u(3))
  have 6: "wf_timers c'"
    using assms 4 5 by (simp add: wf_timers_def word_le_nat_alt)
  have 7: "\<forall>t \<in> set (active_timers c'). timer_enabled t \<and> \<not> timer_fires now t"
    by (simp add: 2 timer_fires_def)
  have 8: "\<forall>t \<in> set (active_timers c). timer_fires now t \<longrightarrow> t \<notin> set (active_timers c')"
    by (simp add: 2 timer_fires_def)
  have 9: "calls (snd (updateTimers now2 cb c' env')) = calls env' @
             (case cb of None \<Rightarrow> []
              | Some f \<Rightarrow> map timer_call (filter (timer_fires now2) (active_timers c')))"
    using updateTimers_spec(4) [OF wf_timers_count [OF 6], of now2 cb env']
    by (simp add: expire_calls_def)
  show ?thesis
    unfolding Let_def c'_def [symmetric] env'_def [symmetric]
    using 1 2 3 4 5 6 7 8 9 by blast
qed

text \<open>
  Five counted slots at 3000 ms: the timers of relays 2 and 4 fire (turn off, turn on),
  the enabled timers of relays 0 and 3 remain, the cancelled slot is dropped.
\<close>

theorem timer_sweep_witness:
  "wf_timers five_timers \<and>
   calls (snd (updateTimers 3000 (Some set_relay) five_timers env0)) = [(2, False), (4, True)] \<and>
   active_timers (fst (updateTimers 3000 (Some set_relay) five_timers env0)) =
     [timer_slot 0 0 100 True True, timer_slot 3 0 100 False True] \<and>
   unat (timerCount (fst (updateTimers 3000 (Some set_relay) five_timers env0))) = 2 \<and>
   timer_slot 2 0 3 True True \<in> set (active_timers five_timers) \<and>
   timer_fires 3000 (timer_slot 2 0 3 True True) \<and>
   timer_slot 2 0 3 True True \<notin>
     set (active_timers (fst (updateTimers 3000 (Some set_relay) five_timers env0)))"
proof -
  have "timer_slot 2 0 3 True True \<in> set (active_timers five_timers)"
    by (simp add: active_five_timers)
  moreover have "timer_slot 2 0 3 True True \<notin>
      set [timer_slot 0 0 100 True True, timer_slot 3 0 100 False True]"
    by (simp add: timer_slot_def)
  moreover have "map timer_call [timer_slot 2 0 3 True True, timer_slot 4 0 2 False True] =
      [(2, False), (4, True)]"
    by (simp add: timer_call_def timer_slot_def)
  ultimately show ?thesis
    using timer_sweep [OF wf_five_timers, of 3000 "Some set_relay" env0 3000]
      five_timers_fires(3) wf_five_timers
    by (simp add: Let_def five_timers_survivors five_timers_fired env0_def)
qed

subsection \<open>Capacity and cancelled slots\<close>

lemma cancelTimer_first:
  assumes wf: "wf_timers c" and k: "k < unat (timerCount c)"
    and m: "timer_match rid (timers c ! k)"
    and first: "\<forall>j<k. \<not> timer_match rid (timers c ! j)"
  shows "cancelTimer rid c =
           (True, c\<lparr>timers := (timers c)[k := (timers c ! k)\<lparr>timer_enabled := False\<rparr>]\<rparr>)"
proof -
  have "unat (timerCount c) \<le> 128" using wf_timers_small [OF wf] by simp
  from cancelTimer_cases [OF this, of rid] k m
  obtain k' where k': "k' < unat (timerCount c)" "fst (cancelTimer rid c)"
    "snd (cancelTimer rid c) =
       c\<lparr>timers := (timers c)[k' := (timers c ! k')\<lparr>timer_enabled := False\<rparr>]\<rparr>"
    "timer_match rid (timers c ! k')" "\<forall>j<k'. \<not> timer_match rid (timers c ! j)"
    by blast
  have "\<not> k' < k" using first k'(4) by blast
  moreover have "\<not> k < k'" using k'(5) m by blast
  ultimately have "k' = k" by simp
  then show ?thesis using k'(2,3) by (simp add: prod_eq_iff)
qed

lemma cancelTimer_found:
  assumes wf: "wf_timers c" and k: "k < unat (timerCount c)"
    and m: "timer_match rid (timers c ! k)"
  shows "fst (cancelTimer rid c)"
proof -
  have "unat (timerCount c) \<le> 128" using wf_timers_small [OF wf] by simp
  from cancelTimer_cases [OF this, of rid] k m show ?thesis by blast
qed

lemma cancelTimer_none:
  assumes wf: "wf_timers c"
    and no: "\<forall>k < unat (timerCount c). \<not> timer_match rid (timers c ! k)"
  shows "cancelTimer rid c = (False, c)"
proof -
  have "unat (timerCount c) \<le> 128" using wf_timers_small [OF wf] by simp
  from cancelTimer_cases [OF this, of rid] no show ?thesis
    by (auto simp: prod_eq_iff)
qed

lemma addTimer_count:
  "unat (timerCount c) \<le> unat (timerCount (snd (addTimer now rid dur off c)))"
proof (cases "timerCount c < MAX_TIMERS \<and> rid < RELAY_COUNT")
  case False
  then show ?thesis by (simp add: addTimer_fail)
next
  case True
  then have n: "unat (timerCount c) < 5"
    by (simp add: word_less_nat_alt MAX_TIMERS_def)
  have g: "\<not> timerCount c \<ge> MAX_TIMERS" "\<not> rid \<ge> RELAY_COUNT"
    using True by (simp_all add: not_le)
  have "timerCount (snd (addTimer now rid dur off c)) = timerCount c + 1"
    using g by (simp add: addTimer_def Let_def cancelTimer_def)
  moreover have "unat (timerCount c + 1) = unat (timerCount c) + 1"
    using n by (simp add: unat_word_ariths)
  ultimately show ?thesis by simp
qed

lemma schedule_ops_timerCount:
  "timerCount (snd (addSchedule rid onH onM offH offM days c)) = timerCount c"
  "timerCount (snd (removeSchedule index c)) = timerCount c"
  "timerCount (setScheduleEnabled index en c) = timerCount c"
  "timerCount (clearAllSchedules c) = timerCount c"
  "timerCount (snd (schedule_loadFromSD c sd)) = timerCount c"
  "timerCount (snd (schedule_begin c sd)) = timerCount c"
  by (simp_all add: addSchedule_def removeSchedule_def setScheduleEnabled_def
        clearAllSchedules_def schedule_loadFromSD_timers schedule_begin_def Let_def)

text \<open>
  Claim C10 as stated fails in its last part: the cancelled slot of relay 1 keeps the
  count at \<open>MAX_TIMERS\<close> and a new timer is refused, and \<open>clearAllTimers\<close>, with no
  sweep, sets the count to zero, after which the new timer is accepted.
\<close>

theorem cancelled_slots_clearAllTimers_counterexample:
  "timerCount five_timers = MAX_TIMERS \<and>
   \<not> timer_enabled (timers five_timers ! 1) \<and>
   addTimer 0 1 60 True five_timers = (False, five_timers) \<and>
   timerCount (clearAllTimers five_timers) = 0 \<and>
   fst (addTimer 0 1 60 True (clearAllTimers five_timers))"
  by (simp add: addTimer_fst addTimer_fail clearAllTimers_def five_timers_def timer_slot_def
        MAX_TIMERS_def RELAY_COUNT_def)

text \<open>
  Claim C10, amended. With the timer count at \<open>MAX_TIMERS\<close>, \<open>addTimer\<close> returns false
  and the unchanged engine, so an enabled timer of the same relay is not cancelled,
  whatever the enabled flags of the counted slots are. \<open>cancelTimer\<close> never changes the
  count: if a counted slot is an enabled timer of the relay it returns true and clears
  the enabled flag of the first such slot and nothing else, and otherwise it returns
  false and the unchanged engine. The count goes down only in the sweep of
  \<open>updateTimers\<close> (which is all that \<open>update\<close> does to the timers), which sets it to the
  number of enabled, unexpired counted timers, and in \<open>clearAllTimers\<close>, which sets it to
  zero: \<open>addTimer\<close> never lowers it, and the schedule operations, \<open>loadFromSD\<close> and
  \<open>begin\<close> leave it as it is.
\<close>

theorem addTimer_at_capacity:
  "(timerCount c = MAX_TIMERS \<longrightarrow> addTimer now rid dur off c = (False, c)) \<and>
   timerCount (snd (cancelTimer rid c)) = timerCount c \<and>
   (wf_timers c \<and> k < unat (timerCount c) \<and> timer_match rid (timers c ! k)
      \<longrightarrow> fst (cancelTimer rid c)) \<and>
   (wf_timers c \<and> k < unat (timerCount c) \<and> timer_match rid (timers c ! k) \<and>
    (\<forall>j<k. \<not> timer_match rid (timers c ! j))
      \<longrightarrow> cancelTimer rid c =
            (True, c\<lparr>timers := (timers c)[k := (timers c ! k)\<lparr>timer_enabled := False\<rparr>]\<rparr>)) \<and>
   (wf_timers c \<and> (\<forall>j < unat (timerCount c). \<not> timer_match rid (timers c ! j))
      \<longrightarrow> cancelTimer rid c = (False, c)) \<and>
   (wf_timers c \<and> fst (cancelTimer rid c) \<longrightarrow>
      (\<exists>k < unat (timerCount c). timer_match rid (timers c ! k) \<and>
         snd (cancelTimer rid c) =
           c\<lparr>timers := (timers c)[k := (timers c ! k)\<lparr>timer_enabled := False\<rparr>]\<rparr>)) \<and>
   (wf_timers c \<longrightarrow>
      unat (timerCount (fst (updateTimers now2 cb c env))) =
        length (filter (\<lambda>t. timer_enabled t \<and> \<not> timer_expired now2 t) (active_timers c))) \<and>
   update now2 cb c env = updateTimers now2 cb c env \<and>
   timerCount (clearAllTimers c) = 0 \<and>
   unat (timerCount c) \<le> unat (timerCount (snd (addTimer now rid dur off c))) \<and>
   timerCount (snd (addSchedule rid onH onM offH offM days c)) = timerCount c \<and>
   timerCount (snd (removeSchedule index c)) = timerCount c \<and>
   timerCount (setScheduleEnabled index en c) = timerCount c \<and>
   timerCount (clearAllSchedules c) = timerCount c \<and>
   timerCount (snd (schedule_loadFromSD c sd)) = timerCount c \<and>
   timerCount (snd (schedule_begin c sd)) = timerCount c"
proof -
  have 1: "addTimer now rid dur off c = (False, c)" if "timerCount c = MAX_TIMERS"
    using that by (simp add: addTimer_def)
  have 2: "timerCount (snd (cancelTimer rid c)) = timerCount c"
    by (simp add: cancelTimer_def Let_def)
  have 3: "\<exists>k < unat (timerCount c). timer_match rid (timers c ! k) \<and>
         snd (cancelTimer rid c) =
           c\<lparr>timers := (timers c)[k := (timers c ! k)\<lparr>timer_enabled := False\<rparr>]\<rparr>"
    if "wf_timers c" "fst (cancelTimer rid c)"
  proof -
    have "unat (timerCount c) \<le> 128" using wf_timers_small [OF that(1)] by simp
    from cancelTimer_cases [OF this, of rid] that(2) show ?thesis by blast
  qed
  have 4: "unat (timerCount (fst (updateTimers now2 cb c env))) =
        length (filter (\<lambda>t. timer_enabled t \<and> \<not> timer_expired now2 t) (active_timers c))"
    if "wf_timers c"
    by (rule updateTimers_spec(2) [OF wf_timers_count [OF that]])
  have 5: "timerCount (clearAllTimers c) = 0"
    by (simp add: clearAllTimers_def)
  show ?thesis
    using 1 2 3 4 5 cancelTimer_first [of c k rid] cancelTimer_found [of c k rid]
      cancelTimer_none [of c rid] update_eq [of now2 cb c env]
      addTimer_count [of c now rid dur off]
      schedule_ops_timerCount
    by blast
qed

lemma five_timers_slots:
  "timerCount five_timers = MAX_TIMERS" "unat (timerCount five_timers) = 5"
  "timers five_timers ! 0 = timer_slot 0 0 100 True True"
  "timers five_timers ! 1 = timer_slot 1 0 100 True False"
  "timers five_timers ! 2 = timer_slot 2 0 3 True True"
  "timers five_timers ! 3 = timer_slot 3 0 100 False True"
  "timers five_timers ! 4 = timer_slot 4 0 2 False True"
  by (simp_all add: five_timers_def MAX_TIMERS_def)

lemma five_timers_match:
  "\<not> timer_match 2 (timer_slot 0 0 100 True True)"
  "\<not> timer_match 2 (timer_slot 1 0 100 True False)"
  "timer_match 2 (timer_slot 2 0 3 True True)"
  "\<not> timer_match 1 (timer_slot 0 0 100 True True)"
  "\<not> timer_match 1 (timer_slot 1 0 100 True False)"
  "\<not> timer_match 1 (timer_slot 2 0 3 True True)"
  "\<not> timer_match 1 (timer_slot 3 0 100 False True)"
  "\<not> timer_match 1 (timer_slot 4 0 2 False True)"
  by (simp_all add: timer_match_def timer_slot_def)

lemma all_less_2: "(\<forall>j<2. P j) \<longleftrightarrow> P 0 \<and> P (1::nat)"
  by (auto simp: less_2_cases_iff)

lemma all_less_5: "(\<forall>j<5. P j) \<longleftrightarrow> P 0 \<and> P 1 \<and> P 2 \<and> P 3 \<and> P (4::nat)"
proof -
  have "j < 5 \<longleftrightarrow> j = 0 \<or> j = 1 \<or> j = 2 \<or> j = 3 \<or> j = 4" for j :: nat by arith
  then show ?thesis by auto
qed

text \<open>
  Five counted slots of which four are enabled: a new timer for relay 2 is refused and
  its running timer stays; cancelling relay 2 clears the flag of slot 2 and keeps the
  count; cancelling relay 1, whose slot is disabled, finds nothing; a sweep brings the
  count down to four and \<open>clearAllTimers\<close> to zero.
\<close>

theorem addTimer_at_capacity_witness:
  "timerCount five_timers = MAX_TIMERS \<and>
   length (filter timer_enabled (active_timers five_timers)) = 4 \<and>
   addTimer 0 2 60 True five_timers = (False, five_timers) \<and>
   timerCount (snd (cancelTimer 2 five_timers)) = timerCount five_timers \<and>
   wf_timers five_timers \<and> 2 < unat (timerCount five_timers) \<and>
   timer_match 2 (timers five_timers ! 2) \<and>
   \<not> timer_match 2 (timers five_timers ! 0) \<and>
   \<not> timer_match 2 (timers five_timers ! 1) \<and>
   fst (cancelTimer 2 five_timers) \<and>
   cancelTimer 2 five_timers =
     (True, five_timers\<lparr>timers := (timers five_timers)[2 := timer_slot 2 0 3 True False]\<rparr>) \<and>
   \<not> timer_match 1 (timers five_timers ! 0) \<and>
   \<not> timer_match 1 (timers five_timers ! 1) \<and>
   \<not> timer_match 1 (timers five_timers ! 2) \<and>
   \<not> timer_match 1 (timers five_timers ! 3) \<and>
   \<not> timer_match 1 (timers five_timers ! 4) \<and>
   cancelTimer 1 five_timers = (False, five_timers) \<and>
   unat (timerCount (fst (updateTimers 0 None five_timers env0))) = 4 \<and>
   timerCount (clearAllTimers five_timers) = 0"
proof -
  have d: "(timer_slot 2 0 3 True True)\<lparr>timer_enabled := False\<rparr> = timer_slot 2 0 3 True False"
    by (simp add: timer_slot_def)
  have a: "\<forall>j<2. \<not> timer_match 2 (timers five_timers ! j)"
    by (simp add: all_less_2 five_timers_def timer_match_def timer_slot_def)
  have b: "\<forall>j < unat (timerCount five_timers). \<not> timer_match 1 (timers five_timers ! j)"
    by (simp add: all_less_5 five_timers_def timer_match_def timer_slot_def)
  have m: "timer_match 2 (timers five_timers ! 2)" "2 < unat (timerCount five_timers)"
    by (simp_all add: five_timers_slots(2-7) five_timers_match)
  show ?thesis
    using addTimer_at_capacity [where c = five_timers and now = 0 and rid = 2 and dur = 60
            and off = True and cb = None and ?now2.0 = 0 and env = env0 and k = 2]
          addTimer_at_capacity [where c = five_timers and now = 0 and rid = 1 and dur = 60
            and off = True and cb = None and ?now2.0 = 0 and env = env0 and k = 2]
          wf_five_timers a b m five_timers_slots(1)
    by (simp add: five_timers_enabled five_timers_slots(3-7) five_timers_match d MAX_TIMERS_def)
qed

section \<open>Properties of persistence\<close>

subsection \<open>Record images\<close>

lemma of_le32_le32: "of_le32 (ucast w) (ucast (drop_bit 8 w)) (ucast (drop_bit 16 w)) (ucast (drop_bit 24 w)) = w"
  unfolding of_le32_def
proof (rule bit_word_eqI)
  fix n assume "n < LENGTH(32)"
  then consider "n < 8" | "8 \<le> n" "n < 16" | "16 \<le> n" "n < 24" | "24 \<le> n" "n < 32"
    by fastforce
  then show "bit (ucast (ucast w :: u8) OR push_bit 8 (ucast (ucast (drop_bit 8 w) :: u8)) OR
                  push_bit 16 (ucast (ucast (drop_bit 16 w) :: u8)) OR
                  push_bit 24 (ucast (ucast (drop_bit 24 w) :: u8)) :: u32) n = bit w n"
    by cases (auto simp: bit_simps)
qed

lemma bool_byte_nz: "(bool_byte b \<noteq> 0) = b"
  by (simp add: bool_byte_def)

lemma rule_of_bytes_rule_bytes: "rule_of_bytes (rule_bytes r) = r"
  by (cases r) (simp add: rule_of_bytes_def rule_bytes_def le32_def of_le32_le32 bool_byte_nz)

lemma length_rule_bytes: "length (rule_bytes r) = 12"
  by (simp add: rule_bytes_def le32_def)

lemma schedule_of_bytes_schedule_bytes: "schedule_of_bytes (schedule_bytes s) = s"
  by (cases s) (simp add: schedule_of_bytes_def schedule_bytes_def bool_byte_nz)

lemma length_schedule_bytes: "length (schedule_bytes s) = 8"
  by (simp add: schedule_bytes_def)

lemma file_read_buf_record:
  "length old = length new \<Longrightarrow> file_read_buf old (new @ tail) = (new, tail)"
  by (simp add: file_read_buf_def Let_def)

subsection \<open>The write and read loops\<close>

lemma save_loop:
  "n \<le> length xs \<Longrightarrow>
   foldl (\<lambda>bytes i. bytes @ enc (xs ! i)) init [0..<n] = init @ concat (map enc (take n xs))"
  by (induction n) (simp_all add: take_Suc_conv_app_nth)

lemma load_rule_loop:
  "length rs \<le> length (rules c) \<Longrightarrow>
   foldl load_rule_step (c, concat (map rule_bytes rs) @ tail) [0..<length rs] =
     (c\<lparr>rules := rs @ drop (length rs) (rules c)\<rparr>, tail)"
proof (induction rs arbitrary: tail rule: rev_induct)
  case Nil
  then show ?case by simp
next
  case (snoc r rs)
  define k where "k = length rs"
  have k: "k < length (rules c)" using snoc.prems by (simp add: k_def)
  have ih: "foldl load_rule_step (c, concat (map rule_bytes rs) @ rule_bytes r @ tail) [0..<k] =
     (c\<lparr>rules := rs @ drop k (rules c)\<rparr>, rule_bytes r @ tail)"
    using snoc.IH [of "rule_bytes r @ tail"] k by (simp add: k_def)
  have old: "length (rule_bytes ((rs @ drop k (rules c)) ! k)) = length (rule_bytes r)"
    by (simp add: length_rule_bytes)
  have step: "load_rule_step (c\<lparr>rules := rs @ drop k (rules c)\<rparr>, rule_bytes r @ tail) k =
     (c\<lparr>rules := (rs @ drop k (rules c))[k := r]\<rparr>, tail)"
    by (simp add: load_rule_step_def file_read_buf_record [OF old] rule_of_bytes_rule_bytes)
  have upd: "(rs @ drop k (rules c))[k := r] = (rs @ [r]) @ drop (Suc k) (rules c)"
    using k by (simp add: list_update_append k_def Cons_nth_drop_Suc [symmetric])
  show ?case
    using ih step upd by (simp add: k_def)
qed

lemma load_schedule_loop:
  "length rs \<le> length (schedules c) \<Longrightarrow>
   foldl load_schedule_step (c, concat (map schedule_bytes rs) @ tail) [0..<length rs] =
     (c\<lparr>schedules := rs @ drop (length rs) (schedules c)\<rparr>, tail)"
proof (induction rs arbitrary: tail rule: rev_induct)
  case Nil
  then show ?case by simp
next
  case (snoc r rs)
  define k where "k = length rs"
  have k: "k < length (schedules c)" using snoc.prems by (simp add: k_def)
  have ih: "foldl load_schedule_step (c, concat (map schedule_bytes rs) @ schedule_bytes r @ tail) [0..<k] =
     (c\<lparr>schedules := rs @ drop k (schedules c)\<rparr>, schedule_bytes r @ tail)"
    using snoc.IH [of "schedule_bytes r @ tail"] k by (simp add: k_def)
  have old: "length (schedule_bytes ((rs @ drop k (schedules c)) ! k)) = length (schedule_bytes r)"
    by (simp add: length_schedule_bytes)
  have step: "load_schedule_step (c\<lparr>schedules := rs @ drop k (schedules c)\<rparr>, schedule_bytes r @ tail) k =
     (c\<lparr>schedules := (rs @ drop k (schedules c))[k := r]\<rparr>, tail)"
    by (simp add: load_schedule_step_def file_read_buf_record [OF old] schedule_of_bytes_schedule_bytes)
  have upd: "(rs @ drop k (schedules c))[k := r] = (rs @ [r]) @ drop (Suc k) (schedules c)"
    using k by (simp add: list_update_append k_def Cons_nth_drop_Suc [symmetric])
  show ?case
    using ih step upd by (simp add: k_def)
qed

subsection \<open>Save and load\<close>

lemma automation_saveToSD_spec:
  assumes "sd_open_ok sd" "unat (ruleCount c) \<le> length (rules c)"
  shows "fst (automation_saveToSD c sd)"
    and "sd_open_ok (snd (automation_saveToSD c sd))"
    and "sd_files (snd (automation_saveToSD c sd)) FILE_AUTOMATION =
           Some (ruleCount c # concat (map rule_bytes (take (unat (ruleCount c)) (rules c))))"
  using assms
  by (simp_all add: automation_saveToSD_def Let_def SD_remove_def SD_mkdir_def save_loop)

lemma schedule_saveToSD_spec:
  assumes "sd_open_ok sd" "unat (scheduleCount c) \<le> length (schedules c)"
  shows "fst (schedule_saveToSD c sd)"
    and "sd_open_ok (snd (schedule_saveToSD c sd))"
    and "sd_files (snd (schedule_saveToSD c sd)) FILE_SCHEDULES =
           Some (scheduleCount c # concat (map schedule_bytes (take (unat (scheduleCount c)) (schedules c))))"
  using assms
  by (simp_all add: schedule_saveToSD_def Let_def SD_remove_def SD_mkdir_def save_loop)

lemma automation_loadFromSD_stored:
  assumes f: "sd_files sd FILE_AUTOMATION = Some (n # concat (map rule_bytes rs))"
    and ok: "sd_open_ok sd" and n: "unat n = length rs" "n \<le> MAX_AUTOMATION_RULES"
    and l: "length (rules c0) = unat MAX_AUTOMATION_RULES"
  shows "automation_loadFromSD c0 sd =
           (True, c0\<lparr>ruleCount := n, rules := rs @ drop (length rs) (rules c0)\<rparr>)"
proof -
  have le: "length rs \<le> length (rules (c0\<lparr>ruleCount := n\<rparr>))"
    using n l by (simp add: word_le_nat_alt)
  have "foldl load_rule_step (c0\<lparr>ruleCount := n\<rparr>, concat (map rule_bytes rs)) [0..<length rs] =
          (c0\<lparr>ruleCount := n, rules := rs @ drop (length rs) (rules c0)\<rparr>, [])"
    using load_rule_loop [OF le, of "[]"] by simp
  then show ?thesis
    using f ok n
    by (simp add: automation_loadFromSD_def SD_exists_def SD_open_read_def Let_def not_less)
qed

lemma schedule_loadFromSD_stored:
  assumes f: "sd_files sd FILE_SCHEDULES = Some (n # concat (map schedule_bytes rs))"
    and ok: "sd_open_ok sd" and n: "unat n = length rs" "n \<le> MAX_SCHEDULES"
    and l: "length (schedules c0) = unat MAX_SCHEDULES"
  shows "schedule_loadFromSD c0 sd =
           (True, c0\<lparr>scheduleCount := n, schedules := rs @ drop (length rs) (schedules c0)\<rparr>)"
proof -
  have le: "length rs \<le> length (schedules (c0\<lparr>scheduleCount := n\<rparr>))"
    using n l by (simp add: word_le_nat_alt)
  have "foldl load_schedule_step (c0\<lparr>scheduleCount := n\<rparr>, concat (map schedule_bytes rs)) [0..<length rs] =
          (c0\<lparr>scheduleCount := n, schedules := rs @ drop (length rs) (schedules c0)\<rparr>, [])"
    using load_schedule_loop [OF le, of "[]"] by simp
  then show ?thesis
    using f ok n
    by (simp add: schedule_loadFromSD_def SD_exists_def SD_open_read_def Let_def not_less)
qed

lemma wf_schedule_count: "wf_schedule c \<Longrightarrow> unat (scheduleCount c) \<le> length (schedules c)"
  by (simp add: wf_schedule_def word_le_nat_alt)

text \<open>
  Claim C7. For a rule engine and a schedule engine with any count up to capacity and a
  store whose opens succeed, \<open>saveToSD\<close> succeeds, and \<open>loadFromSD\<close> of the saved store
  into any engine \<open>c0\<close> succeeds and gives the saved count and, below it, the saved
  records in order, field for field (the slots beyond the count keep what \<open>c0\<close> had);
  loading into the engine that was saved gives that engine back.
\<close>

theorem save_load_roundtrip:
  assumes "wf_automation c" "length (rules c0) = unat MAX_AUTOMATION_RULES"
    and "wf_schedule s" "length (schedules s0) = unat MAX_SCHEDULES"
    and "sd_open_ok sd"
  shows "fst (automation_saveToSD c sd) \<and>
         automation_loadFromSD c0 (snd (automation_saveToSD c sd)) =
           (True, c0\<lparr>ruleCount := ruleCount c,
                      rules := take (unat (ruleCount c)) (rules c) @
                               drop (unat (ruleCount c)) (rules c0)\<rparr>) \<and>
         take (unat (ruleCount c)) (rules (snd (automation_loadFromSD c0 (snd (automation_saveToSD c sd)))))
           = take (unat (ruleCount c)) (rules c) \<and>
         automation_loadFromSD c (snd (automation_saveToSD c sd)) = (True, c) \<and>
         fst (schedule_saveToSD s sd) \<and>
         schedule_loadFromSD s0 (snd (schedule_saveToSD s sd)) =
           (True, s0\<lparr>scheduleCount := scheduleCount s,
                      schedules := take (unat (scheduleCount s)) (schedules s) @
                                   drop (unat (scheduleCount s)) (schedules s0)\<rparr>) \<and>
         take (unat (scheduleCount s))
              (schedules (snd (schedule_loadFromSD s0 (snd (schedule_saveToSD s sd)))))
           = take (unat (scheduleCount s)) (schedules s) \<and>
         schedule_loadFromSD s (snd (schedule_saveToSD s sd)) = (True, s)"
proof -
  note n = wf_automation_count [OF assms(1)]
  note a = automation_saveToSD_spec [OF assms(5) n]
  have cap: "ruleCount c \<le> MAX_AUTOMATION_RULES" "length (rules c) = unat MAX_AUTOMATION_RULES"
    using assms(1) by (simp_all add: wf_automation_def)
  have len: "unat (ruleCount c) = length (take (unat (ruleCount c)) (rules c))"
    using n by simp
  have ld: "automation_loadFromSD c' (snd (automation_saveToSD c sd)) =
           (True, c'\<lparr>ruleCount := ruleCount c,
                      rules := take (unat (ruleCount c)) (rules c) @
                               drop (unat (ruleCount c)) (rules c')\<rparr>)"
    if "length (rules c') = unat MAX_AUTOMATION_RULES" for c'
    using automation_loadFromSD_stored [OF a(3) a(2) len cap(1) that] n by simp
  have 1: "take (unat (ruleCount c)) (rules (snd (automation_loadFromSD c0 (snd (automation_saveToSD c sd)))))
           = take (unat (ruleCount c)) (rules c)"
    using n by (simp add: ld [OF assms(2)])
  have 2: "automation_loadFromSD c (snd (automation_saveToSD c sd)) = (True, c)"
    by (simp add: ld [OF cap(2)])
  note m = wf_schedule_count [OF assms(3)]
  note b = schedule_saveToSD_spec [OF assms(5) m]
  have scap: "scheduleCount s \<le> MAX_SCHEDULES" "length (schedules s) = unat MAX_SCHEDULES"
    using assms(3) by (simp_all add: wf_schedule_def)
  have slen: "unat (scheduleCount s) = length (take (unat (scheduleCount s)) (schedules s))"
    using m by simp
  have sld: "schedule_loadFromSD s' (snd (schedule_saveToSD s sd)) =
           (True, s'\<lparr>scheduleCount := scheduleCount s,
                      schedules := take (unat (scheduleCount s)) (schedules s) @
                                   drop (unat (scheduleCount s)) (schedules s')\<rparr>)"
    if "length (schedules s') = unat MAX_SCHEDULES" for s'
    using schedule_loadFromSD_stored [OF b(3) b(2) slen scap(1) that] m by simp
  have 3: "take (unat (scheduleCount s))
              (schedules (snd (schedule_loadFromSD s0 (snd (schedule_saveToSD s sd)))))
           = take (unat (scheduleCount s)) (schedules s)"
    using m by (simp add: sld [OF assms(4)])
  have 4: "schedule_loadFromSD s (snd (schedule_saveToSD s sd)) = (True, s)"
    by (simp add: sld [OF scap(2)])
  show ?thesis
    using a(1) ld [OF assms(2)] 1 2 b(1) sld [OF assms(4)] 3 4 by simp
qed

lemma wf_fresh_automation: "wf_automation fresh_automation"
  by (simp add: wf_automation_def fresh_automation_def AutomationController_init_def
        MAX_AUTOMATION_RULES_def)

lemma wf_fresh_schedules: "wf_schedule fresh_schedules"
  by (simp add: wf_schedule_def fresh_schedules_def ScheduleController_init_def MAX_SCHEDULES_def)

text \<open>
  A full rule engine and a full schedule engine saved to an empty card and loaded into
  fresh engines, and the empty engines saved and loaded.
\<close>

theorem save_load_roundtrip_witness:
  "wf_automation full_automation \<and> length (rules fresh_automation) = unat MAX_AUTOMATION_RULES \<and>
   wf_schedule full_schedules \<and> length (schedules fresh_schedules) = unat MAX_SCHEDULES \<and>
   sd_open_ok empty_sd \<and>
   fst (automation_saveToSD full_automation empty_sd) \<and>
   fst (automation_loadFromSD fresh_automation (snd (automation_saveToSD full_automation empty_sd))) \<and>
   ruleCount (snd (automation_loadFromSD fresh_automation
                     (snd (automation_saveToSD full_automation empty_sd)))) = 5 \<and>
   rules (snd (automation_loadFromSD fresh_automation
                     (snd (automation_saveToSD full_automation empty_sd)))) =
     rules full_automation \<and>
   fst (schedule_saveToSD full_schedules empty_sd) \<and>
   fst (schedule_loadFromSD fresh_schedules (snd (schedule_saveToSD full_schedules empty_sd))) \<and>
   scheduleCount (snd (schedule_loadFromSD fresh_schedules
                     (snd (schedule_saveToSD full_schedules empty_sd)))) = 6 \<and>
   schedules (snd (schedule_loadFromSD fresh_schedules
                     (snd (schedule_saveToSD full_schedules empty_sd)))) =
     schedules full_schedules \<and>
   wf_automation fresh_automation \<and> wf_schedule fresh_schedules \<and>
   automation_loadFromSD fresh_automation (snd (automation_saveToSD fresh_automation empty_sd)) =
     (True, fresh_automation) \<and>
   schedule_loadFromSD fresh_schedules (snd (schedule_saveToSD fresh_schedules empty_sd)) =
     (True, fresh_schedules)"
proof -
  have l: "length (rules fresh_automation) = unat MAX_AUTOMATION_RULES"
    "length (schedules fresh_schedules) = unat MAX_SCHEDULES" "sd_open_ok empty_sd"
    using wf_fresh_automation wf_fresh_schedules
    by (simp_all add: wf_automation_def wf_schedule_def empty_sd_def)
  have c: "ruleCount full_automation = 5" "length (rules full_automation) = 5"
    "scheduleCount full_schedules = 6" "length (schedules full_schedules) = 6"
    by (simp_all add: full_automation_def full_schedules_def)
  show ?thesis
    using save_load_roundtrip [OF wf_full_automation l(1) wf_full_schedules l(2) l(3)]
      save_load_roundtrip [OF wf_fresh_automation l(1) wf_fresh_schedules l(2) l(3)]
      wf_full_automation wf_full_schedules wf_fresh_automation wf_fresh_schedules l
    by (simp add: c MAX_AUTOMATION_RULES_def MAX_SCHEDULES_def)
qed

subsection \<open>Failing loads\<close>

text \<open>
  Claim C6 as stated fails: with no rule file on the card, \<open>loadFromSD\<close> of a rule
  engine holding five rules returns false and leaves the five rules in place; with a
  schedule file that cannot be opened, the six schedules stay as well.
\<close>

theorem loadFromSD_missing_file_counterexample:
  "\<not> SD_exists empty_sd FILE_AUTOMATION \<and>
   automation_loadFromSD full_automation empty_sd = (False, full_automation) \<and>
   ruleCount full_automation = 5 \<and>
   SD_exists unreadable_sd FILE_SCHEDULES \<and> SD_open_read unreadable_sd FILE_SCHEDULES = None \<and>
   schedule_loadFromSD full_schedules unreadable_sd = (False, full_schedules) \<and>
   scheduleCount full_schedules = 6"
  by (simp add: automation_loadFromSD_def schedule_loadFromSD_def SD_exists_def SD_open_read_def
        empty_sd_def unreadable_sd_def full_automation_def full_schedules_def)

text \<open>
  Claim C6, amended. When the file is missing or the open fails, \<open>loadFromSD\<close> returns
  false and leaves the engine unchanged. When the file is empty or its count byte is
  above the capacity, \<open>loadFromSD\<close> returns false and sets the count to zero, writing
  no slot of the array. A failing load does one or the other; no record is loaded by it.
\<close>

theorem loadFromSD_failure:
  "(\<not> SD_exists sd FILE_AUTOMATION \<or> SD_open_read sd FILE_AUTOMATION = None
      \<longrightarrow> automation_loadFromSD c sd = (False, c)) \<and>
   (SD_exists sd FILE_AUTOMATION \<and>
    (SD_open_read sd FILE_AUTOMATION = Some [] \<or>
     SD_open_read sd FILE_AUTOMATION = Some (b # rest) \<and> b > MAX_AUTOMATION_RULES)
      \<longrightarrow> automation_loadFromSD c sd = (False, c\<lparr>ruleCount := 0\<rparr>)) \<and>
   (\<not> fst (automation_loadFromSD c sd)
      \<longrightarrow> automation_loadFromSD c sd = (False, c) \<or>
          automation_loadFromSD c sd = (False, c\<lparr>ruleCount := 0\<rparr>)) \<and>
   (\<not> SD_exists sd FILE_SCHEDULES \<or> SD_open_read sd FILE_SCHEDULES = None
      \<longrightarrow> schedule_loadFromSD s sd = (False, s)) \<and>
   (SD_exists sd FILE_SCHEDULES \<and>
    (SD_open_read sd FILE_SCHEDULES = Some [] \<or>
     SD_open_read sd FILE_SCHEDULES = Some (b # rest) \<and> b > MAX_SCHEDULES)
      \<longrightarrow> schedule_loadFromSD s sd = (False, s\<lparr>scheduleCount := 0\<rparr>)) \<and>
   (\<not> fst (schedule_loadFromSD s sd)
      \<longrightarrow> schedule_loadFromSD s sd = (False, s) \<or>
          schedule_loadFromSD s sd = (False, s\<lparr>scheduleCount := 0\<rparr>))"
proof -
  have m: "(word_of_int (- 1) :: u8) > MAX_AUTOMATION_RULES"
          "(word_of_int (- 1) :: u8) > MAX_SCHEDULES"
    by (simp_all add: MAX_AUTOMATION_RULES_def MAX_SCHEDULES_def)
  have 1: "automation_loadFromSD c sd = (False, c)"
    if "\<not> SD_exists sd FILE_AUTOMATION \<or> SD_open_read sd FILE_AUTOMATION = None"
    using that by (auto simp: automation_loadFromSD_def)
  have 2: "automation_loadFromSD c sd = (False, c\<lparr>ruleCount := 0\<rparr>)"
    if "SD_exists sd FILE_AUTOMATION"
       "SD_open_read sd FILE_AUTOMATION = Some [] \<or>
        SD_open_read sd FILE_AUTOMATION = Some (b # rest) \<and> b > MAX_AUTOMATION_RULES"
    using that m(1) by (auto simp: automation_loadFromSD_def Let_def)
  have 3: "automation_loadFromSD c sd = (False, c) \<or>
          automation_loadFromSD c sd = (False, c\<lparr>ruleCount := 0\<rparr>)"
    if "\<not> fst (automation_loadFromSD c sd)"
    using that
    by (auto simp: automation_loadFromSD_def Let_def split: if_splits option.splits prod.splits)
  have 4: "schedule_loadFromSD s sd = (False, s)"
    if "\<not> SD_exists sd FILE_SCHEDULES \<or> SD_open_read sd FILE_SCHEDULES = None"
    using that by (auto simp: schedule_loadFromSD_def)
  have 5: "schedule_loadFromSD s sd = (False, s\<lparr>scheduleCount := 0\<rparr>)"
    if "SD_exists sd FILE_SCHEDULES"
       "SD_open_read sd FILE_SCHEDULES = Some [] \<or>
        SD_open_read sd FILE_SCHEDULES = Some (b # rest) \<and> b > MAX_SCHEDULES"
    using that m(2) by (auto simp: schedule_loadFromSD_def Let_def)
  have 6: "schedule_loadFromSD s sd = (False, s) \<or>
          schedule_loadFromSD s sd = (False, s\<lparr>scheduleCount := 0\<rparr>)"
    if "\<not> fst (schedule_loadFromSD s sd)"
    using that
    by (auto simp: schedule_loadFromSD_def Let_def split: if_splits option.splits prod.splits)
  show ?thesis using 1 2 3 4 5 6 by blast
qed

text \<open>
  Full engines against a card without files, a card that cannot be opened and a card
  whose count byte is 9.
\<close>

theorem loadFromSD_failure_witness:
  "\<not> SD_exists empty_sd FILE_AUTOMATION \<and>
   automation_loadFromSD full_automation empty_sd = (False, full_automation) \<and>
   SD_exists corrupt_sd FILE_AUTOMATION \<and>
   SD_open_read corrupt_sd FILE_AUTOMATION = Some [9, 1, 2, 3] \<and> (9 :: u8) > MAX_AUTOMATION_RULES \<and>
   automation_loadFromSD full_automation corrupt_sd = (False, full_automation\<lparr>ruleCount := 0\<rparr>) \<and>
   SD_open_read unreadable_sd FILE_SCHEDULES = None \<and>
   schedule_loadFromSD full_schedules unreadable_sd = (False, full_schedules) \<and>
   SD_exists corrupt_sd FILE_SCHEDULES \<and>
   SD_open_read corrupt_sd FILE_SCHEDULES = Some [9, 1, 2, 3] \<and> (9 :: u8) > MAX_SCHEDULES \<and>
   schedule_loadFromSD full_schedules corrupt_sd = (False, full_schedules\<lparr>scheduleCount := 0\<rparr>)"
  using loadFromSD_failure [of empty_sd full_automation 9 "[1, 2, 3]" full_schedules]
    loadFromSD_failure [of corrupt_sd full_automation 9 "[1, 2, 3]" full_schedules]
    loadFromSD_failure [of unreadable_sd full_automation 9 "[1, 2, 3]" full_schedules]
  by (simp add: SD_exists_def SD_open_read_def empty_sd_def corrupt_sd_def unreadable_sd_def
        MAX_AUTOMATION_RULES_def MAX_SCHEDULES_def)

end
